theory Spec2Isabelle
  imports Complex_Main "HOL-Library.Multiset"
begin

section \<open>Numbers and strings of the host language\<close>

text \<open>
  A JavaScript number is an IEEE binary64 value. Every finite binary64 value is a
  rational, so a finite number is modelled by its exact value; the three non-finite
  values are constructors of their own. The two zeros are one value \<open>Finite 0\<close>
  (they are equal under \<open>===\<close>, and \<open>toFixed\<close> prints both as \<open>0.0000\<close>). The
  functions of tree-utils do no arithmetic on numbers; where a number comes from a
  text (\<open>parseFloat\<close> below), the value of the text is rounded to the nearest binary64
  value.

  A string is a list of characters; the model covers the code units 0 to 255.
\<close>

datatype jsnum = Finite rat | NaN | PosInf | NegInf

definition digit_char :: "nat \<Rightarrow> char" where
  "digit_char d = ''0123456789'' ! d"

definition is_digit :: "char \<Rightarrow> bool" where
  "is_digit c = (c \<in> set ''0123456789'')"

definition digit_val :: "char \<Rightarrow> nat" where
  "digit_val c = of_char c - 48"

text \<open>The decimal digits of a natural number, most significant first (\<open>0\<close> is \<open>''0''\<close>).\<close>

fun digits :: "nat \<Rightarrow> string" where
  "digits n = (if n < 10 then [digit_char n] else digits (n div 10) @ [digit_char (n mod 10)])"

declare digits.simps [simp del]

text \<open>The number a string of decimal digits denotes.\<close>

definition digits_val :: "string \<Rightarrow> nat" where
  "digits_val ds = foldl (\<lambda>acc c. 10 * acc + digit_val c) 0 ds"

text \<open>
  \<open>Number.prototype.toFixed(f)\<close>, after ECMAScript: a non-finite number prints as its
  name; otherwise the sign is split off, and a magnitude below \<open>10^21\<close> prints as the
  integer \<open>n\<close> nearest to \<open>x * 10^f\<close> (the larger one on a tie), padded with zeros to
  at least \<open>f + 1\<close> digits, with a point before the last \<open>f\<close> digits. A magnitude of
  \<open>10^21\<close> or more prints in the exponential notation of \<open>Number::toString\<close>, whose
  digits depend on the binary64 representation: that function is the parameter \<open>big\<close>.
\<close>

definition toFixed :: "(rat \<Rightarrow> string) \<Rightarrow> nat \<Rightarrow> jsnum \<Rightarrow> string" where
  "toFixed big f v =
     (case v of
        NaN \<Rightarrow> ''NaN''
      | PosInf \<Rightarrow> ''Infinity''
      | NegInf \<Rightarrow> ''-Infinity''
      | Finite x \<Rightarrow>
          (let s = (if x < 0 then ''-'' else '''');
               a = \<bar>x\<bar>
           in if 10 ^ 21 \<le> a then s @ big a
              else
                (let n = nat \<lfloor>a * 10 ^ f + 1 / 2\<rfloor>;
                     m = digits n;
                     m' = (if length m \<le> f then replicate (f + 1 - length m) (CHR ''0'') @ m else m);
                     k = length m'
                 in s @ (if f \<noteq> 0 then take (k - f) m' @ ''.'' @ drop (k - f) m' else m'))))"

text \<open>\<open>Array.prototype.join\<close> on an array of strings (of lists, in general).\<close>

fun join :: "'a list \<Rightarrow> 'a list list \<Rightarrow> 'a list" where
  "join sep [] = []"
| "join sep [x] = x"
| "join sep (x # y # ys) = x @ sep @ join sep (y # ys)"

section \<open>Cluster trees (tree-utils)\<close>

text \<open>
  \<open>ClusterNode\<close> of the type declarations: a name, a height and an optional array of
  children. \<open>None\<close> is the absent \<open>children\<close> property, \<open>Some []\<close> an empty array.
\<close>

datatype ClusterNode =
  ClusterNode (name: string) (height: jsnum) (children: "ClusterNode list option")

text \<open>
  \<open>toNewick\<close>: a node without children, or with an empty array of them, is its name;
  any other node is its children's encodings in brackets, followed by its height with
  four decimals.
\<close>

fun toNewick :: "(rat \<Rightarrow> string) \<Rightarrow> ClusterNode \<Rightarrow> string" where
  "toNewick big (ClusterNode n h cs) =
     (case cs of
        None \<Rightarrow> n
      | Some ks \<Rightarrow>
          if length ks = 0 then n
          else ''('' @ join '','' (map (toNewick big) ks) @ '')'' @ toFixed big 4 h)"

text \<open>
  The object \<open>treeToJSON\<close> returns: \<open>name\<close> and \<open>height\<close> always, \<open>children\<close> only
  when the function sets it.
\<close>

datatype JsonNode =
  JsonNode (jname: string) (jheight: jsnum) (jchildren: "JsonNode list option")

fun treeToJSON :: "ClusterNode \<Rightarrow> JsonNode" where
  "treeToJSON (ClusterNode n h cs) =
     JsonNode n h
       (case cs of
          None \<Rightarrow> None
        | Some ks \<Rightarrow> if length ks > 0 then Some (map treeToJSON ks) else None)"

subsection \<open>Parsing: the tokens\<close>

text \<open>
  The white space of the regular expression class \<open>\s\<close>, which is also the white
  space \<open>parseFloat\<close> skips: tab, line feed, vertical tab, form feed, carriage return,
  space and no-break space (the members below code unit 256).
\<close>

definition is_space :: "char \<Rightarrow> bool" where
  "is_space c = (of_char c \<in> {9, 10, 11, 12, 13, 32, 160 :: nat})"

definition is_delim :: "char \<Rightarrow> bool" where
  "is_delim c = (c \<in> set '';(),:'')"

text \<open>
  The pattern \<open>\s*(;|\(|\)|,|:)\s*\<close> tried at the head of a string: it matches when
  the first character after the leading white space is one of the five delimiters, and
  then takes the white space after the delimiter too. The result is the captured
  delimiter and the rest of the string.
\<close>

definition match_delim :: "string \<Rightarrow> (char \<times> string) option" where
  "match_delim s =
     (case dropWhile is_space s of
        [] \<Rightarrow> None
      | d # r \<Rightarrow> if is_delim d then Some (d, dropWhile is_space r) else None)"

lemma match_delim_shorter: "match_delim s = Some (d, r) \<Longrightarrow> length r < length s"
proof -
  assume m: "match_delim s = Some (d, r)"
  then obtain r' where s: "dropWhile is_space s = d # r'" and r: "r = dropWhile is_space r'"
    by (auto simp: match_delim_def split: list.splits if_splits)
  have "length r \<le> length r'" using r by (simp add: length_dropWhile_le)
  moreover have "length (d # r') \<le> length s" using s by (metis length_dropWhile_le)
  ultimately show ?thesis by simp
qed

text \<open>
  \<open>String.prototype.split\<close> with that pattern: the string is scanned from the left;
  where the pattern matches, the text collected so far and the captured delimiter are
  emitted and the scan goes on after the match; elsewhere the character joins the text.
  The text left at the end is emitted last. \<open>cur\<close> is the text collected so far.
\<close>

function split_tokens :: "string \<Rightarrow> string \<Rightarrow> string list" where
  "split_tokens cur s =
     (case match_delim s of
        Some (d, r) \<Rightarrow> cur # [d] # split_tokens [] r
      | None \<Rightarrow>
          (case s of
             [] \<Rightarrow> [cur]
           | c # cs \<Rightarrow> split_tokens (cur @ [c]) cs))"
  by pat_completeness auto
termination
  by (relation "measure (\<lambda>(cur, s). length s)") (auto simp: match_delim_shorter)

declare split_tokens.simps [simp del]

definition split :: "string \<Rightarrow> string list" where
  "split s = split_tokens [] s"

subsection \<open>Parsing: numbers\<close>

text \<open>
  The Number value for a rational: the nearest binary64 value, the one with the even
  significand on a tie. With \<open>e\<close> the binary exponent of the magnitude, at least
  \<open>-1022\<close> (below that the values are subnormal), the binary64 values around the
  magnitude are the multiples of \<open>2^(e - 52)\<close>; a magnitude that rounds to \<open>2^1024\<close>
  or more gives an infinity, and one that rounds to 0 gives 0.
\<close>

fun bit_length :: "nat \<Rightarrow> nat" where
  "bit_length n = (if n = 0 then 0 else Suc (bit_length (n div 2)))"

declare bit_length.simps [simp del]

definition pow2 :: "int \<Rightarrow> rat" where
  "pow2 k = (if 0 \<le> k then 2 ^ nat k else 1 / 2 ^ nat (- k))"

text \<open>The binary exponent of a positive rational: \<open>2^(ilog2 a) \<le> a < 2^(ilog2 a + 1)\<close>.\<close>

definition ilog2 :: "rat \<Rightarrow> int" where
  "ilog2 a =
     (if 1 \<le> a then int (bit_length (nat \<lfloor>a\<rfloor>)) - 1
      else - int (bit_length (nat (\<lceil>1 / a\<rceil> - 1))))"

definition round_half_even :: "rat \<Rightarrow> int" where
  "round_half_even x =
     (let n = \<lfloor>x\<rfloor>;
          r = x - of_int n
      in if r < 1 / 2 then n
         else if 1 / 2 < r then n + 1
         else if even n then n else n + 1)"

definition to_double :: "rat \<Rightarrow> jsnum" where
  "to_double x =
     (let a = \<bar>x\<bar>;
          e = max (ilog2 a) (- 1022);
          ulp = pow2 (e - 52);
          y = of_int (round_half_even (a / ulp)) * ulp
      in if x = 0 then Finite 0
         else if pow2 1024 \<le> y then (if x < 0 then NegInf else PosInf)
         else Finite (if x < 0 then - y else y))"

text \<open>
  \<open>Number.parseFloat\<close>, after ECMAScript: leading white space is skipped, and the
  longest prefix that is a decimal literal (an optional sign, then \<open>Infinity\<close> or
  digits with an optional fraction and an optional exponent) gives the value, rounded
  to a Number value; without such a prefix the value is \<open>NaN\<close>. (ECMAScript lets
  an implementation round a literal of more than 20 significant digits from its first
  20 digits; the model rounds the value of the whole literal, as the engines do.)
\<close>

fun negate :: "jsnum \<Rightarrow> jsnum" where
  "negate (Finite x) = Finite (- x)"
| "negate NaN = NaN"
| "negate PosInf = NegInf"
| "negate NegInf = PosInf"

definition exponent_part :: "string \<Rightarrow> int" where
  "exponent_part s =
     (case s of
        [] \<Rightarrow> 0
      | c # r \<Rightarrow>
          if c = CHR ''e'' \<or> c = CHR ''E'' then
            (case r of
               [] \<Rightarrow> 0
             | g # r' \<Rightarrow>
                 if g = CHR ''+'' then
                   (if takeWhile is_digit r' = [] then 0 else int (digits_val (takeWhile is_digit r')))
                 else if g = CHR ''-'' then
                   (if takeWhile is_digit r' = [] then 0 else - int (digits_val (takeWhile is_digit r')))
                 else
                   (if takeWhile is_digit r = [] then 0 else int (digits_val (takeWhile is_digit r))))
          else 0)"

definition parse_unsigned :: "string \<Rightarrow> jsnum" where
  "parse_unsigned s =
     (if take 8 s = ''Infinity'' then PosInf
      else
        (let ip = takeWhile is_digit s;
             r1 = dropWhile is_digit s;
             dot = (r1 \<noteq> [] \<and> hd r1 = CHR ''.'');
             fp = (if dot then takeWhile is_digit (tl r1) else []);
             r2 = (if dot then dropWhile is_digit (tl r1) else r1)
         in if ip = [] \<and> fp = [] then NaN
            else
              (let mant = rat_of_nat (digits_val (ip @ fp)) / 10 ^ length fp;
                   e = exponent_part r2
               in to_double (if 0 \<le> e then mant * 10 ^ nat e else mant / 10 ^ nat (- e)))))"

definition parseFloat :: "string \<Rightarrow> jsnum" where
  "parseFloat s =
     (case dropWhile is_space s of
        [] \<Rightarrow> NaN
      | c # r \<Rightarrow>
          if c = CHR ''-'' then negate (parse_unsigned r)
          else if c = CHR ''+'' then parse_unsigned r
          else parse_unsigned (c # r))"

subsection \<open>Parsing: the tree\<close>

text \<open>
  \<open>fromNewick\<close> builds the tree out of objects it changes in place, through the
  references \<open>tree\<close>, \<open>subtree\<close> and the stack \<open>ancestors\<close>, while the \<open>children\<close>
  arrays of other objects refer to the same objects. The model keeps the objects in a
  store: a list of cells, an object being the index of its cell. An object starts empty
  (\<open>{} as ClusterNode\<close>) and gets its properties one by one, so every property of a cell
  is optional; the \<open>children\<close> of a cell are references.
\<close>

record cell =
  cname :: "string option"
  cheight :: "jsnum option"
  cchildren :: "nat list option"

definition empty_cell :: cell where
  "empty_cell = \<lparr>cname = None, cheight = None, cchildren = None\<rparr>"

text \<open>
  The state of the loop: the store, \<open>tree\<close> (\<open>None\<close> when it is \<open>undefined\<close>, which
  \<open>ancestors.pop()\<close> returns on an empty stack) and \<open>ancestors\<close>. The head of the list
  is the top of the stack.
\<close>

datatype hstate = HState (store: "cell list") (tree_ref: "nat option") (ancestors: "nat list")

datatype error = TypeError

text \<open>
  One iteration of the loop, for the token \<open>tokens[i]\<close>; \<open>prev\<close> is \<open>tokens[i - 1]\<close>,
  \<open>None\<close> when \<open>i = 0\<close>. Every iteration creates the object \<open>subtree\<close>. An assignment
  to a property of \<open>undefined\<close> throws a \<open>TypeError\<close>; \<open>ancestors.at(-1)?.children?.push\<close>
  does nothing on an empty stack or without a \<open>children\<close> array. The token \<open>;\<close> has no
  case of its own in the \<open>switch\<close> and goes to the default case, like the text between
  delimiters.
\<close>

definition step :: "string option \<Rightarrow> string \<Rightarrow> hstate \<Rightarrow> error + hstate" where
  "step prev token st =
     (let subtree = length (store st);
          h = store st @ [empty_cell];
          tree = tree_ref st;
          anc = ancestors st
      in
        if token = ''('' then
          (case tree of
             None \<Rightarrow> Inl TypeError
           | Some t \<Rightarrow>
               Inr (HState (h[t := (h ! t)\<lparr>cchildren := Some [subtree]\<rparr>]) (Some subtree) (t # anc)))
        else if token = '','' then
          Inr (HState
                 (case anc of
                    [] \<Rightarrow> h
                  | a # as \<Rightarrow>
                      (case cchildren (h ! a) of
                         None \<Rightarrow> h
                       | Some cs \<Rightarrow> h[a := (h ! a)\<lparr>cchildren := Some (cs @ [subtree])\<rparr>]))
                 (Some subtree) anc)
        else if token = '')'' then
          (case anc of
             [] \<Rightarrow> Inr (HState h None [])
           | a # as \<Rightarrow> Inr (HState h (Some a) as))
        else if token = '':'' then Inr (HState h tree anc)
        else if prev = Some '')'' \<or> prev = Some ''('' \<or> prev = Some '','' \<or> prev = None
                  \<or> prev = Some [] then
          (case tree of
             None \<Rightarrow> Inl TypeError
           | Some t \<Rightarrow> Inr (HState (h[t := (h ! t)\<lparr>cname := Some token\<rparr>]) tree anc))
        else if prev = Some '':'' then
          (case tree of
             None \<Rightarrow> Inl TypeError
           | Some t \<Rightarrow>
               Inr (HState (h[t := (h ! t)\<lparr>cheight := Some (parseFloat token)\<rparr>]) tree anc))
        else Inr (HState h tree anc))"

fun run :: "string option \<Rightarrow> string list \<Rightarrow> hstate \<Rightarrow> error + hstate" where
  "run prev [] st = Inr st"
| "run prev (token # rest) st =
     (case step prev token st of
        Inl e \<Rightarrow> Inl e
      | Inr st' \<Rightarrow> run (Some token) rest st')"

text \<open>
  \<open>fillDefaults\<close> walks the objects below a node: a name that is missing or empty
  becomes the empty string, a missing height becomes 0, and the children are filled in
  turn. The model returns the filled tree as a value. The recursion follows references,
  so it takes fuel, one unit for each level; \<open>None\<close> is the result when the fuel runs
  out.
\<close>

fun fillDefaults :: "nat \<Rightarrow> cell list \<Rightarrow> nat \<Rightarrow> ClusterNode option" where
  "fillDefaults 0 h a = None"
| "fillDefaults (Suc f) h a =
     (case (case cchildren (h ! a) of
              None \<Rightarrow> Some None
            | Some cs \<Rightarrow> map_option Some (those (map (fillDefaults f h) cs))) of
        None \<Rightarrow> None
      | Some kids \<Rightarrow>
          Some (ClusterNode
                  (case cname (h ! a) of None \<Rightarrow> [] | Some s \<Rightarrow> if s = [] then [] else s)
                  (case cheight (h ! a) of None \<Rightarrow> Finite 0 | Some x \<Rightarrow> x)
                  kids))"

text \<open>
  \<open>fromNewick\<close>: the loop starts with one empty object as \<open>tree\<close> and an empty stack,
  and the result is the object \<open>tree\<close> refers to when the tokens are used up, with the
  defaults filled in. \<open>fillDefaults (undefined)\<close> throws a \<open>TypeError\<close>. The fuel is the
  number of objects; the theorem \<open>fromNewick_total\<close> below shows that it always
  suffices, so the result is never \<open>None\<close>.
\<close>

definition fromNewick :: "string \<Rightarrow> (error + ClusterNode) option" where
  "fromNewick s =
     (case run None (split s) (HState [empty_cell] (Some 0) []) of
        Inl e \<Rightarrow> Some (Inl e)
      | Inr st \<Rightarrow>
          (case tree_ref st of
             None \<Rightarrow> Some (Inl TypeError)
           | Some t \<Rightarrow>
               map_option Inr (fillDefaults (length (store st)) (store st) t)))"

subsection \<open>Parsing: the tree, without the store\<close>

text \<open>
  The same loop on values, for the proofs. A node enters the stack at \<open>(\<close>, after its
  \<open>children\<close> array was set to a new array holding the new \<open>tree\<close>; while a node is on
  the stack only \<open>,\<close> changes it, pushing the new \<open>tree\<close> onto its \<open>children\<close>; \<open>)\<close>
  takes it off the stack and makes it \<open>tree\<close> again. So the last element of the
  \<open>children\<close> array of every node on the stack is the next node on the stack, or
  \<open>tree\<close> for the top of the stack. Here each node on the stack is a \<open>frame\<close>: its name,
  its height and its children before that last one, as values; the last child is
  written into its parent when the loop leaves it (at \<open>,\<close> and at \<open>)\<close>). \<open>Lost\<close> is
  the state in which \<open>tree\<close> is \<open>undefined\<close>. The theorem \<open>fromNewick_zip_eq\<close> below
  shows that this loop computes what the loop on the store computes.
\<close>

datatype pnode =
  PNode (pname: "string option") (pheight: "jsnum option") (pchildren: "pnode list option")

definition empty_node :: pnode where
  "empty_node = PNode None None None"

datatype frame =
  Frame (fname: "string option") (fheight: "jsnum option") (before: "pnode list")

datatype zstate = Lost | At pnode "frame list"

definition zstep :: "string option \<Rightarrow> string \<Rightarrow> zstate \<Rightarrow> error + zstate" where
  "zstep prev token st =
     (if token = ''('' then
        (case st of
           Lost \<Rightarrow> Inl TypeError
         | At t fs \<Rightarrow> Inr (At empty_node (Frame (pname t) (pheight t) [] # fs)))
      else if token = '','' then
        (case st of
           Lost \<Rightarrow> Inr (At empty_node [])
         | At t [] \<Rightarrow> Inr (At empty_node [])
         | At t (Frame n h b # fs) \<Rightarrow> Inr (At empty_node (Frame n h (b @ [t]) # fs)))
      else if token = '')'' then
        (case st of
           Lost \<Rightarrow> Inr Lost
         | At t [] \<Rightarrow> Inr Lost
         | At t (Frame n h b # fs) \<Rightarrow> Inr (At (PNode n h (Some (b @ [t]))) fs))
      else if token = '':'' then Inr st
      else if prev = Some '')'' \<or> prev = Some ''('' \<or> prev = Some '','' \<or> prev = None
                \<or> prev = Some [] then
        (case st of
           Lost \<Rightarrow> Inl TypeError
         | At t fs \<Rightarrow> Inr (At (PNode (Some token) (pheight t) (pchildren t)) fs))
      else if prev = Some '':'' then
        (case st of
           Lost \<Rightarrow> Inl TypeError
         | At t fs \<Rightarrow> Inr (At (PNode (pname t) (Some (parseFloat token)) (pchildren t)) fs))
      else Inr st)"

fun zrun :: "string option \<Rightarrow> string list \<Rightarrow> zstate \<Rightarrow> error + zstate" where
  "zrun prev [] st = Inr st"
| "zrun prev (token # rest) st =
     (case zstep prev token st of
        Inl e \<Rightarrow> Inl e
      | Inr st' \<Rightarrow> zrun (Some token) rest st')"

fun zfill :: "pnode \<Rightarrow> ClusterNode" where
  "zfill (PNode n h cs) =
     ClusterNode
       (case n of None \<Rightarrow> [] | Some s \<Rightarrow> if s = [] then [] else s)
       (case h of None \<Rightarrow> Finite 0 | Some x \<Rightarrow> x)
       (case cs of None \<Rightarrow> None | Some ks \<Rightarrow> Some (map zfill ks))"

definition fromNewick_zip :: "string \<Rightarrow> error + ClusterNode" where
  "fromNewick_zip s =
     (case zrun None (split s) (At empty_node []) of
        Inl e \<Rightarrow> Inl e
      | Inr Lost \<Rightarrow> Inl TypeError
      | Inr (At t fs) \<Rightarrow> Inr (zfill t))"

text \<open>
  How the store holds a value: the object \<open>a\<close> of the store \<open>h\<close> stands for \<open>t\<close>.
\<close>

inductive rep :: "cell list \<Rightarrow> nat \<Rightarrow> pnode \<Rightarrow> bool" where
  rep_leaf: "cchildren (h ! a) = None \<Longrightarrow>
     rep h a (PNode (cname (h ! a)) (cheight (h ! a)) None)"
| rep_node: "cchildren (h ! a) = Some cs \<Longrightarrow> list_all2 (rep h) cs ts \<Longrightarrow>
     rep h a (PNode (cname (h ! a)) (cheight (h ! a)) (Some ts))"

text \<open>
  The objects from \<open>b\<close> up to \<open>p\<close> refer only to later objects below \<open>p\<close>.
\<close>

definition closed_seg :: "cell list \<Rightarrow> nat \<Rightarrow> nat \<Rightarrow> bool" where
  "closed_seg h b p =
     (p \<le> length h
      \<and> (\<forall>x cs. b \<le> x \<and> x < p \<and> cchildren (h ! x) = Some cs \<longrightarrow> (\<forall>c\<in>set cs. x < c \<and> c < p)))"

text \<open>
  The stack of the store and the frames: the object \<open>a\<close> is the last child of the top
  \<open>q\<close> of the stack, \<open>q\<close> has the name, the height and the earlier children of the
  top frame, and so on down the stack.
\<close>

fun path :: "cell list \<Rightarrow> nat \<Rightarrow> frame list \<Rightarrow> nat list \<Rightarrow> bool" where
  "path h a [] [] = True"
| "path h a (fr # fs) (q # anc) =
     (q < a \<and> cname (h ! q) = fname fr \<and> cheight (h ! q) = fheight fr
      \<and> (\<exists>bs. cchildren (h ! q) = Some (bs @ [a]) \<and> list_all2 (rep h) bs (before fr)
              \<and> (\<forall>s\<in>set bs. q < s \<and> s < a))
      \<and> closed_seg h (Suc q) a
      \<and> path h q fs anc)"
| "path h a fs anc = False"

text \<open>The state of the loop on the store and the state of the loop on values agree.\<close>

fun agree :: "hstate \<Rightarrow> zstate \<Rightarrow> bool" where
  "agree (HState h tree anc) Lost = (tree = None \<and> anc = [])"
| "agree (HState h tree anc) (At t fs) =
     (\<exists>a. tree = Some a \<and> a < length h \<and> rep h a t \<and> closed_seg h a (length h) \<and> path h a fs anc)"

text \<open>
  What \<open>toNewick\<close> does not read: the height of a node it prints as a leaf and the name
  of a node it prints in brackets. \<open>forget\<close> overwrites both.
\<close>

fun forget :: "ClusterNode \<Rightarrow> ClusterNode" where
  "forget (ClusterNode n h cs) =
     (case cs of
        None \<Rightarrow> ClusterNode n (Finite 0) None
      | Some ks \<Rightarrow>
          if ks = [] then ClusterNode n (Finite 0) (Some [])
          else ClusterNode [] h (Some (map forget ks)))"

section \<open>Notions the statements about tree-utils use\<close>

text \<open>
  A stand-in for the parameter \<open>big\<close> in statements about concrete trees whose heights
  are all below \<open>10^21\<close>, where \<open>toFixed\<close> never calls it.
\<close>

definition unused_big :: "rat \<Rightarrow> string" where
  "unused_big x = []"

text \<open>
  The text \<open>toFixed(4)\<close> is expected to print for a finite number \<open>x\<close>: a minus sign
  when \<open>x\<close> is negative, at least one digit, a point and exactly four digits, the
  digits being those of \<open>\<bar>x\<bar> * 10^4\<close> rounded to the nearest integer (upwards on a tie).
\<close>

definition four_decimals :: "rat \<Rightarrow> string \<Rightarrow> bool" where
  "four_decimals x s =
     (let sign = (if x < 0 then ''-'' else []);
          body = drop (length sign) s;
          ip = take (length body - 5) body;
          fp = drop (length body - 4) body
      in s = sign @ ip @ ''.'' @ fp \<and> ip \<noteq> [] \<and> length fp = 4
         \<and> list_all is_digit (ip @ fp)
         \<and> digits_val (ip @ fp) = nat \<lfloor>\<bar>x\<bar> * 10 ^ 4 + 1 / 2\<rfloor>)"

text \<open>The digits \<open>toFixed(4)\<close> prints for the integer \<open>n\<close>, before the point is set.\<close>

definition padded :: "nat \<Rightarrow> string" where
  "padded n =
     (if length (digits n) \<le> 4 then replicate (5 - length (digits n)) (CHR ''0'') @ digits n
      else digits n)"

text \<open>
  A text that \<open>split\<close> gives back as one token wherever it stands between delimiters:
  it holds no delimiter and neither starts nor ends with white space.
\<close>

definition safe_text :: "string \<Rightarrow> bool" where
  "safe_text s =
     (list_all (\<lambda>c. \<not> is_delim c) s
      \<and> (s = [] \<or> (\<not> is_space (hd s) \<and> \<not> is_space (last s))))"

text \<open>The names of the nodes \<open>toNewick\<close> prints as leaves, from left to right.\<close>

fun leaf_names :: "ClusterNode \<Rightarrow> string list" where
  "leaf_names (ClusterNode n h cs) =
     (case cs of
        None \<Rightarrow> [n]
      | Some ks \<Rightarrow> if ks = [] then [n] else concat (map leaf_names ks))"

text \<open>
  What parsing the encoding of a tree gives back: the shape and the leaf names of the
  tree, every height 0, and as the name of a node with children the text of its height.
\<close>

fun reparsed :: "(rat \<Rightarrow> string) \<Rightarrow> ClusterNode \<Rightarrow> ClusterNode" where
  "reparsed big (ClusterNode n h cs) =
     (case cs of
        None \<Rightarrow> ClusterNode n (Finite 0) None
      | Some ks \<Rightarrow>
          if ks = [] then ClusterNode n (Finite 0) None
          else ClusterNode (toFixed big 4 h) (Finite 0) (Some (map (reparsed big) ks)))"

text \<open>
  For the proof of that: the tokens of the encoding of a tree, the node the loop has
  built when it has read them, and the trees whose labels are all safe texts.
\<close>

fun toks :: "(rat \<Rightarrow> string) \<Rightarrow> ClusterNode \<Rightarrow> string list" where
  "toks big (ClusterNode n h cs) =
     (case cs of
        None \<Rightarrow> [n]
      | Some ks \<Rightarrow>
          if ks = [] then [n]
          else [] # ''('' # join ['',''] (map (toks big) ks) @ ['')'', toFixed big 4 h])"

fun img :: "(rat \<Rightarrow> string) \<Rightarrow> ClusterNode \<Rightarrow> pnode" where
  "img big (ClusterNode n h cs) =
     (case cs of
        None \<Rightarrow> PNode (Some n) None None
      | Some ks \<Rightarrow>
          if ks = [] then PNode (Some n) None None
          else PNode (Some (toFixed big 4 h)) None (Some (map (img big) ks)))"

fun safe_tree :: "(rat \<Rightarrow> string) \<Rightarrow> ClusterNode \<Rightarrow> bool" where
  "safe_tree big (ClusterNode n h cs) =
     (case cs of
        None \<Rightarrow> safe_text n
      | Some ks \<Rightarrow>
          if ks = [] then safe_text n
          else safe_text (toFixed big 4 h) \<and> list_all (safe_tree big) ks)"

text \<open>Token lists in which safe texts and single delimiters alternate.\<close>

fun good :: "string list \<Rightarrow> bool" where
  "good [] = False"
| "good [x] = safe_text x"
| "good (x # y # ts) = (safe_text x \<and> length y = 1 \<and> is_delim (hd y) \<and> good ts)"

text \<open>The tokens before which the text of a subtree starts.\<close>

definition starts :: "string option \<Rightarrow> bool" where
  "starts prev = (prev = None \<or> prev = Some ''('' \<or> prev = Some '','')"

definition parses :: "(rat \<Rightarrow> string) \<Rightarrow> ClusterNode \<Rightarrow> bool" where
  "parses big t =
     (\<forall>prev fs rest. starts prev \<longrightarrow>
        zrun prev (toks big t @ rest) (At empty_node fs)
          = zrun (Some (last (toks big t))) rest (At (img big t) fs))"

text \<open>A character that is neither a delimiter nor white space.\<close>

definition plain :: "char \<Rightarrow> bool" where
  "plain c = (\<not> is_delim c \<and> \<not> is_space c)"

text \<open>The tree of the tests of \<open>toNewick\<close>: a root of height 1.5 over two leaves.\<close>

definition two_leaf_tree :: ClusterNode where
  "two_leaf_tree =
     ClusterNode ''Root'' (Finite (3 / 2))
       (Some [ClusterNode ''Sample 0'' (Finite 0) None, ClusterNode ''Sample 1'' (Finite 0) None])"

section \<open>The clustering pipeline\<close>

text \<open>
  The sources of the clustering call (\<open>cluster.ts\<close>, \<open>wasm-wrapper.ts\<close> and the
  engine behind them) are not among the files of the repository at hand; only their
  tests are. The definitions of this section are modelled from the specification
  (sections 3, 4 and 7), each under a comment that says so. Distances are exact
  rationals: the single-precision rounding of the engine, its NaN and its infinities
  are not modelled.
\<close>

subsection \<open>Clusters and merges\<close>

text \<open>
  Modelled from the spec: the data model of section 3, which the missing engine and
  the missing \<open>clusterData\<close> implement. A cluster is a synthetic id with the sample
  indices it holds; a merge is the pair of the ids it combines. The initial state has
  the singleton clusters with ids \<open>0..n-1\<close>; the merge with index \<open>j\<close> retires two ids
  and creates the cluster with id \<open>n + j\<close>, whose members are those of the two.
\<close>

type_synonym cluster = "nat \<times> nat list"

type_synonym merge = "nat \<times> nat"

definition singletons :: "nat \<Rightarrow> cluster list" where
  "singletons n = map (\<lambda>i. (i, [i])) [0..<n]"

definition members_of :: "cluster list \<Rightarrow> nat \<Rightarrow> nat list" where
  "members_of cl a = (case map_of cl a of None \<Rightarrow> [] | Some ms \<Rightarrow> ms)"

definition merge_clusters :: "nat \<Rightarrow> cluster list \<Rightarrow> merge \<Rightarrow> cluster list" where
  "merge_clusters c cl ab =
     filter (\<lambda>k. fst k \<noteq> fst ab \<and> fst k \<noteq> snd ab) cl
       @ [(c, members_of cl (fst ab) @ members_of cl (snd ab))]"

subsection \<open>The engine\<close>

text \<open>
  Modelled from the spec: step 2b of section 4.3, the choice of the pair to merge in
  the missing engine. Among the pairs of distinct active clusters the one with the
  least distance is taken; of several with that distance, the one with the lowest
  first id, then the lowest second id. The pairs are listed in that order, and a later
  pair replaces the best one so far only when its distance is smaller.
\<close>

definition all_pairs :: "nat list \<Rightarrow> merge list" where
  "all_pairs ids = concat (map (\<lambda>a. map (\<lambda>b. (a, b)) (filter (\<lambda>b. a < b) ids)) ids)"

definition closer :: "(nat \<Rightarrow> nat \<Rightarrow> rat) \<Rightarrow> merge \<Rightarrow> merge \<Rightarrow> merge" where
  "closer d best q = (if d (fst q) (snd q) < d (fst best) (snd best) then q else best)"

definition closest :: "(nat \<Rightarrow> nat \<Rightarrow> rat) \<Rightarrow> nat list \<Rightarrow> merge option" where
  "closest d ids =
     (case all_pairs (sort ids) of
        [] \<Rightarrow> None
      | p # ps \<Rightarrow> Some (foldl (closer d) p ps))"

text \<open>
  Modelled from the spec: step 2e of section 4.3, the distances of the missing engine
  after a merge. The distance from the new cluster \<open>c\<close> to a cluster \<open>k\<close> is the mean
  of the distances from \<open>a\<close> and from \<open>b\<close> to \<open>k\<close>, weighted by the sizes of \<open>a\<close> and
  \<open>b\<close>; the other distances stay.
\<close>

definition lance_williams ::
  "(nat \<Rightarrow> nat \<Rightarrow> rat) \<Rightarrow> nat \<Rightarrow> nat \<Rightarrow> nat \<Rightarrow> nat \<Rightarrow> nat \<Rightarrow> nat \<Rightarrow> nat \<Rightarrow> rat" where
  "lance_williams d a sa b sb c =
     (\<lambda>x y.
        if x = c \<and> y = c then 0
        else if x = c then (of_nat sa * d a y + of_nat sb * d b y) / of_nat (sa + sb)
        else if y = c then (of_nat sa * d a x + of_nat sb * d b x) / of_nat (sa + sb)
        else d x y)"

text \<open>
  Modelled from the spec: the loop of section 4.3 (steps 2a to 2e) of the missing
  engine, with the cancellation channel of section 4.2. \<open>cancel j\<close> is the answer of
  \<open>checkCancelled()\<close> at the poll of the iteration with index \<open>j\<close>; the loop makes the
  \<open>n - 1\<close> iterations the specification counts (\<open>k\<close> are left). The result is \<open>None\<close>
  when a poll answers true, and otherwise the merges, their heights and the clusters
  left at the end.
\<close>

fun agglomerate ::
  "(nat \<Rightarrow> bool) \<Rightarrow> nat \<Rightarrow> nat \<Rightarrow> nat \<Rightarrow> cluster list \<Rightarrow> (nat \<Rightarrow> nat \<Rightarrow> rat)
     \<Rightarrow> (merge list \<times> rat list \<times> cluster list) option" where
  "agglomerate cancel n j 0 cl d = Some ([], [], cl)"
| "agglomerate cancel n j (Suc k) cl d =
     (if cancel j then None
      else
        (case closest d (map fst cl) of
           None \<Rightarrow> Some ([], [], cl)
         | Some ab \<Rightarrow>
             (case agglomerate cancel n (Suc j) k
                     (merge_clusters (n + j) cl ab)
                     (lance_williams d
                        (fst ab) (length (members_of cl (fst ab)))
                        (snd ab) (length (members_of cl (snd ab))) (n + j)) of
                None \<Rightarrow> None
              | Some (ms, hs, fin) \<Rightarrow> Some (ab # ms, d (fst ab) (snd ab) # hs, fin))))"

text \<open>
  Modelled from the spec: the outcome of the missing engine (sections 4.3 and 7),
  either \<open>Cancelled\<close> or the merges, the heights and the leaf order. The order lists
  the members of the cluster left at the end, which are the leaves of the merge tree
  from left to right; it is empty for \<open>n = 0\<close>.
\<close>

datatype outcome = Cancelled | Done "merge list" "rat list" "nat list"

definition engine :: "(nat \<Rightarrow> bool) \<Rightarrow> nat \<Rightarrow> (nat \<Rightarrow> nat \<Rightarrow> rat) \<Rightarrow> outcome" where
  "engine cancel n d =
     (case agglomerate cancel n 0 (n - 1) (singletons n) d of
        None \<Rightarrow> Cancelled
      | Some (ms, hs, fin) \<Rightarrow> Done ms hs (concat (map snd fin)))"

subsection \<open>The tree builder\<close>

text \<open>
  Modelled from the spec: the label of a sample (section 3) in the missing
  \<open>wasm-wrapper.ts\<close>, the given label or \<open>Sample i\<close>.
\<close>

definition sample_label :: "string list option \<Rightarrow> nat \<Rightarrow> string" where
  "sample_label labels i =
     (case labels of
        None \<Rightarrow> ''Sample '' @ digits i
      | Some ls \<Rightarrow> if i < length ls then ls ! i else ''Sample '' @ digits i)"

text \<open>
  Modelled from the spec: the tree builder of section 4.4 in the missing
  \<open>wasm-wrapper.ts\<close>. The merges are replayed over a table from live cluster ids to
  nodes; each merge takes the two nodes out and enters their parent, with the height of
  the step, under the new id. The specification does not say how a parent is named:
  \<open>inner j\<close> is the name of the parent the merge with index \<open>j\<close> creates. Nor does it
  say what a merge does that names an id without a node, or the same id twice: such a
  merge leaves the table as it is. The root is the node left at the end; there is none
  for \<open>n = 0\<close>.
\<close>

fun replay_tree ::
  "(nat \<Rightarrow> string) \<Rightarrow> nat \<Rightarrow> nat \<Rightarrow> (nat \<times> ClusterNode) list \<Rightarrow> merge list \<Rightarrow> rat list
     \<Rightarrow> (nat \<times> ClusterNode) list" where
  "replay_tree inner n j nodes (ab # ms) (h # hs) =
     (case (map_of nodes (fst ab), map_of nodes (snd ab)) of
        (Some x, Some y) \<Rightarrow>
          if fst ab = snd ab then replay_tree inner n (Suc j) nodes ms hs
          else
            replay_tree inner n (Suc j)
              (filter (\<lambda>k. fst k \<noteq> fst ab \<and> fst k \<noteq> snd ab) nodes
                 @ [(n + j, ClusterNode (inner j) (Finite h) (Some [x, y]))])
              ms hs
      | _ \<Rightarrow> replay_tree inner n (Suc j) nodes ms hs)"
| "replay_tree inner n j nodes ms hs = nodes"

definition build_tree ::
  "(nat \<Rightarrow> string) \<Rightarrow> string list option \<Rightarrow> nat \<Rightarrow> merge list \<Rightarrow> rat list
     \<Rightarrow> ClusterNode option" where
  "build_tree inner labels n ms hs =
     (case replay_tree inner n 0
             (map (\<lambda>i. (i, ClusterNode (sample_label labels i) (Finite 0) None)) [0..<n])
             ms hs of
        [] \<Rightarrow> None
      | nodes \<Rightarrow> Some (snd (last nodes)))"

subsection \<open>The partitions for every cluster count\<close>

text \<open>
  Modelled from the spec: the K-partition extractor of section 4.5 in the missing
  \<open>cluster.ts\<close>. The partition after \<open>m\<close> merges is the initial one with the first
  \<open>m\<close> merges applied in order. Each cluster is written as the ascending sequence of
  its members, and the clusters of a partition are ordered by their least member. The
  entry at index \<open>i < n\<close> is the partition into \<open>i + 1\<close> clusters, the one after
  \<open>n - (i + 1)\<close> merges; the entry at index \<open>n\<close> is empty.

  The tests of \<open>clusterData\<close> in the repository hand it the merges
  \<open>[[0, 1], [0, 1]]\<close> for three samples and expect one cluster of all three after
  them; read as ids, the second of these merges names a retired cluster. What the
  missing code makes of a merge is therefore not settled by this definition, and the
  statements below use the table only for a run without merges.
\<close>

fun replay :: "nat \<Rightarrow> nat \<Rightarrow> cluster list \<Rightarrow> merge list \<Rightarrow> cluster list" where
  "replay n j cl [] = cl"
| "replay n j cl (ab # ms) = replay n (Suc j) (merge_clusters (n + j) cl ab) ms"

definition partition_after :: "nat \<Rightarrow> merge list \<Rightarrow> nat \<Rightarrow> cluster list" where
  "partition_after n ms m = replay n 0 (singletons n) (take m ms)"

definition least_member :: "nat list \<Rightarrow> nat" where
  "least_member c = (case c of [] \<Rightarrow> 0 | x # xs \<Rightarrow> x)"

definition render :: "cluster list \<Rightarrow> nat list list" where
  "render cl = sort_key least_member (map (\<lambda>k. sort (snd k)) cl)"

definition k_partitions :: "nat \<Rightarrow> merge list \<Rightarrow> nat list list list" where
  "k_partitions n ms = map (\<lambda>i. render (partition_after n ms (n - Suc i))) [0..<n] @ [[]]"

subsection \<open>The clustering call\<close>

text \<open>
  Modelled from the spec: the result and the failure of the call (sections 6 and 7)
  of the missing \<open>cluster.ts\<close>.
\<close>

record ClusterResult =
  tree :: "ClusterNode option"
  order :: "nat list"
  distances :: "rat list"
  clustersGivenK :: "nat list list list"

datatype cluster_error = Aborted

text \<open>
  Modelled from the spec: the distance matrix of section 4.1 in the missing engine,
  zero on the diagonal and the distance of the two vectors elsewhere, and its row-major
  buffer. The Euclidean distance takes a square root, which has no exact rational
  value in general: the distance of two vectors is the parameter \<open>metric\<close>.
\<close>

definition distance_matrix ::
  "(rat list \<Rightarrow> rat list \<Rightarrow> rat) \<Rightarrow> rat list list \<Rightarrow> nat \<Rightarrow> nat \<Rightarrow> rat" where
  "distance_matrix metric vectors i j =
     (if i = j \<or> length vectors \<le> i \<or> length vectors \<le> j then 0
      else metric (vectors ! i) (vectors ! j))"

definition flat_matrix :: "nat \<Rightarrow> (nat \<Rightarrow> nat \<Rightarrow> rat) \<Rightarrow> rat list" where
  "flat_matrix n d = concat (map (\<lambda>i. map (\<lambda>j. d i j) [0..<n]) [0..<n])"

text \<open>
  Modelled from the spec: what the missing \<open>hierarchicalClusterWasm\<close> and
  \<open>clusterData\<close> make of the outcome of the engine (sections 2, 4.2 and 7). A
  cancelled run gives the failure and no result; a finished run gives the tree, the
  order, the distances and the table of partitions.
\<close>

definition finish ::
  "(nat \<Rightarrow> string) \<Rightarrow> string list option \<Rightarrow> nat \<Rightarrow> (nat \<Rightarrow> nat \<Rightarrow> rat) \<Rightarrow> outcome
     \<Rightarrow> cluster_error + ClusterResult" where
  "finish inner labels n d out =
     (case out of
        Cancelled \<Rightarrow> Inl Aborted
      | Done ms hs ord \<Rightarrow>
          Inr \<lparr>tree = build_tree inner labels n ms hs,
               order = ord,
               distances = flat_matrix n d,
               clustersGivenK = k_partitions n ms\<rparr>)"

text \<open>
  Modelled from the spec: the data flow of section 2 through the missing
  \<open>clusterData\<close>: the vectors give the distance matrix, the engine runs on it, and
  its outcome is finished as above.
\<close>

definition clusterData ::
  "(rat list \<Rightarrow> rat list \<Rightarrow> rat) \<Rightarrow> (nat \<Rightarrow> string) \<Rightarrow> string list option \<Rightarrow> (nat \<Rightarrow> bool)
     \<Rightarrow> rat list list \<Rightarrow> cluster_error + ClusterResult" where
  "clusterData metric inner labels cancel vectors =
     finish inner labels (length vectors) (distance_matrix metric vectors)
       (engine cancel (length vectors) (distance_matrix metric vectors))"

text \<open>A metric for examples: the sum of the distances of the coordinates.\<close>

definition taxicab :: "rat list \<Rightarrow> rat list \<Rightarrow> rat" where
  "taxicab u v = sum_list (map (\<lambda>p. \<bar>fst p - snd p\<bar>) (zip u v))"

subsection \<open>Notions the statements about the pipeline use\<close>

text \<open>
  The clusters of a run with \<open>n\<close> samples before the merge with index \<open>j\<close>: their
  ids are distinct and below \<open>n + j\<close>, none is empty, and together they hold every
  sample index once.
\<close>

definition partitioned :: "nat \<Rightarrow> nat \<Rightarrow> cluster list \<Rightarrow> bool" where
  "partitioned n j cl =
     (distinct (map fst cl)
      \<and> (\<forall>k\<in>set cl. fst k < n + j \<and> snd k \<noteq> [])
      \<and> mset (concat (map snd cl)) = mset [0..<n])"

text \<open>
  Merges that each name two different live clusters, when replayed from the clusters
  \<open>cl\<close> with the merge index \<open>j\<close>.
\<close>

fun valid_merges :: "nat \<Rightarrow> nat \<Rightarrow> cluster list \<Rightarrow> merge list \<Rightarrow> bool" where
  "valid_merges n j cl [] = True"
| "valid_merges n j cl (ab # ms) =
     (fst ab \<in> set (map fst cl) \<and> snd ab \<in> set (map fst cl) \<and> fst ab \<noteq> snd ab
      \<and> valid_merges n (Suc j) (merge_clusters (n + j) cl ab) ms)"

section \<open>Facts about digits and \<open>toFixed\<close>\<close>

lemma digits_small: "n < 10 \<Longrightarrow> digits n = [digit_char n]"
  by (subst digits.simps) simp

lemma digits_large: "10 \<le> n \<Longrightarrow> digits n = digits (n div 10) @ [digit_char (n mod 10)]"
  by (subst digits.simps) simp

lemma lt10_cases:
  "d < (10::nat) \<Longrightarrow>
   d = 0 \<or> d = 1 \<or> d = 2 \<or> d = 3 \<or> d = 4 \<or> d = 5 \<or> d = 6 \<or> d = 7 \<or> d = 8 \<or> d = 9"
  by arith

lemma digit_char_is_digit: "d < 10 \<Longrightarrow> is_digit (digit_char d)"
  by (drule lt10_cases) (auto simp: is_digit_def digit_char_def)

lemma digit_val_digit_char: "d < 10 \<Longrightarrow> digit_val (digit_char d) = d"
  by (drule lt10_cases) (auto simp: digit_val_def digit_char_def)

lemma digits_all_digit: "list_all is_digit (digits n)"
proof (induction n rule: digits.induct)
  case (1 n)
  show ?case
  proof (cases "n < 10")
    case True
    then show ?thesis by (simp add: digits_small digit_char_is_digit)
  next
    case False
    then have "list_all is_digit (digits (n div 10))" using 1 by simp
    with False show ?thesis by (simp add: digits_large digit_char_is_digit)
  qed
qed

lemma digits_nonempty: "digits n \<noteq> []"
  by (cases "n < 10") (simp_all add: digits_small digits_large)

lemma digits_val_snoc: "digits_val (ds @ [c]) = 10 * digits_val ds + digit_val c"
  by (simp add: digits_val_def)

lemma digits_val_digits: "digits_val (digits n) = n"
proof (induction n rule: digits.induct)
  case (1 n)
  show ?case
  proof (cases "n < 10")
    case True
    then show ?thesis by (simp add: digits_small digits_val_def digit_val_digit_char)
  next
    case False
    then have "digits_val (digits (n div 10)) = n div 10" using 1 by simp
    with False show ?thesis by (simp add: digits_large digits_val_snoc digit_val_digit_char)
  qed
qed

lemma digits_val_zeros: "digits_val (replicate j (CHR ''0'') @ ds) = digits_val ds"
proof -
  have "foldl (\<lambda>acc c. 10 * acc + digit_val c) 0 (replicate j (CHR ''0'')) = 0"
    by (induction j) (simp_all add: digit_val_def)
  then show ?thesis by (simp add: digits_val_def)
qed

lemma padded_length: "5 \<le> length (padded n)"
  by (simp add: padded_def)

lemma padded_digits: "list_all is_digit (padded n)"
proof -
  have "is_digit (CHR ''0'')" by (simp add: is_digit_def)
  then have "list_all is_digit (replicate j (CHR ''0''))" for j
    by (simp add: list_all_iff)
  then show ?thesis by (simp add: padded_def digits_all_digit)
qed

lemma padded_val: "digits_val (padded n) = n"
  by (simp add: padded_def digits_val_zeros digits_val_digits)

lemma toFixed4_finite_eq:
  assumes "\<bar>x\<bar> < 10 ^ 21"
  shows "toFixed big 4 (Finite x) =
     (if x < 0 then ''-'' else []) @
       take (length (padded (nat \<lfloor>\<bar>x\<bar> * 10 ^ 4 + 1 / 2\<rfloor>)) - 4)
         (padded (nat \<lfloor>\<bar>x\<bar> * 10 ^ 4 + 1 / 2\<rfloor>))
       @ ''.'' @
       drop (length (padded (nat \<lfloor>\<bar>x\<bar> * 10 ^ 4 + 1 / 2\<rfloor>)) - 4)
         (padded (nat \<lfloor>\<bar>x\<bar> * 10 ^ 4 + 1 / 2\<rfloor>))"
  using assms by (simp add: toFixed_def Let_def padded_def not_le)

lemma toFixed4_finite:
  assumes "\<bar>x\<bar> < 10 ^ 21"
  shows "\<exists>a b. toFixed big 4 (Finite x) = (if x < 0 then ''-'' else []) @ a @ ''.'' @ b
     \<and> a \<noteq> [] \<and> length b = 4 \<and> list_all is_digit (a @ b)
     \<and> digits_val (a @ b) = nat \<lfloor>\<bar>x\<bar> * 10 ^ 4 + 1 / 2\<rfloor>"
proof -
  let ?n = "nat \<lfloor>\<bar>x\<bar> * 10 ^ 4 + 1 / 2\<rfloor>"
  let ?p = "padded ?n"
  let ?a = "take (length ?p - 4) ?p"
  let ?b = "drop (length ?p - 4) ?p"
  have l: "5 \<le> length ?p" by (rule padded_length)
  have e: "toFixed big 4 (Finite x) = (if x < 0 then ''-'' else []) @ ?a @ ''.'' @ ?b"
    using assms by (rule toFixed4_finite_eq)
  have a: "?a \<noteq> []" using l by auto
  have b: "length ?b = 4" using l by auto
  have ab: "?a @ ?b = ?p" by simp
  have d: "list_all is_digit (?a @ ?b)" unfolding ab by (rule padded_digits)
  have v: "digits_val (?a @ ?b) = ?n" unfolding ab by (rule padded_val)
  show ?thesis using e a b d v by blast
qed

lemma four_decimalsI:
  assumes "s = (if x < 0 then ''-'' else []) @ a @ ''.'' @ b" and "a \<noteq> []" and "length b = 4"
    and "list_all is_digit (a @ b)"
    and "digits_val (a @ b) = nat \<lfloor>\<bar>x\<bar> * 10 ^ 4 + 1 / 2\<rfloor>"
  shows "four_decimals x s"
proof -
  have "take (length (a @ ''.'' @ b) - 5) (a @ ''.'' @ b) = a" using assms(3) by simp
  moreover have "drop (length (a @ ''.'' @ b) - 4) (a @ ''.'' @ b) = b" using assms(3) by simp
  ultimately show ?thesis
    using assms unfolding four_decimals_def Let_def by (cases "x < 0") simp_all
qed

lemma toFixed4_four_decimals:
  "\<bar>x\<bar> < 10 ^ 21 \<Longrightarrow> four_decimals x (toFixed big 4 (Finite x))"
  using toFixed4_finite[of x big] four_decimalsI by blast

lemma digit_not_semicolon: "is_digit c \<Longrightarrow> c \<noteq> CHR '';''"
  by (auto simp: is_digit_def)

lemma toFixed4_last:
  assumes "\<bar>x\<bar> < 10 ^ 21"
  shows "toFixed big 4 (Finite x) \<noteq> [] \<and> last (toFixed big 4 (Finite x)) \<noteq> CHR '';''"
proof -
  obtain a b where e: "toFixed big 4 (Finite x) = (if x < 0 then ''-'' else []) @ a @ ''.'' @ b"
    and b: "length b = 4" and d: "list_all is_digit (a @ b)"
    using toFixed4_finite[OF assms, of big] by blast
  have ne: "b \<noteq> []" using b by auto
  then have "last b \<in> set b" by simp
  then have "is_digit (last b)" using d by (simp add: list_all_iff)
  then have "last b \<noteq> CHR '';''" by (rule digit_not_semicolon)
  then show ?thesis using e ne by simp
qed

text \<open>Rules that evaluate the definitions on concrete inputs.\<close>

lemma replicate_numeral: "replicate (numeral k) x = x # replicate (pred_numeral k) x"
  by (simp add: numeral_eq_Suc)

lemma floor_numeral_div: "\<lfloor>(numeral a :: rat) / numeral b\<rfloor> = numeral a div numeral b"
  using floor_divide_of_int_eq[of "numeral a" "numeral b", where ?'a = rat] by simp

lemma floor_one_div: "\<lfloor>(1 :: rat) / numeral b\<rfloor> = 1 div numeral b"
  using floor_divide_of_int_eq[of 1 "numeral b", where ?'a = rat] by simp

lemmas eval_fixed = toFixed_def digits_small digits_large digit_char_def replicate_numeral
  floor_numeral_div floor_one_div Let_def

lemmas eval_split = split_def split_tokens.simps match_delim_def is_space_def is_delim_def

lemmas eval_parse = fromNewick_zip_def zstep_def empty_node_def

section \<open>Facts about the rounding of numbers\<close>

lemma pow2_powi: "pow2 k = 2 powi k"
  by (simp add: pow2_def power_int_def field_simps)

lemma bit_length_0: "bit_length 0 = 0"
  by (simp add: bit_length.simps)

lemma bit_length_pos: "0 < n \<Longrightarrow> bit_length n = Suc (bit_length (n div 2))"
  by (simp add: bit_length.simps)

lemma bit_length_bounds: "0 < n \<Longrightarrow> 2 ^ (bit_length n - 1) \<le> n \<and> n < 2 ^ bit_length n"
proof (induction n rule: bit_length.induct)
  case (1 n)
  show ?case
  proof (cases "n div 2 = 0")
    case True
    then have "n = 1" using 1(2) by auto
    then show ?thesis by (simp add: bit_length_pos bit_length_0)
  next
    case False
    then have ih: "2 ^ (bit_length (n div 2) - 1) \<le> n div 2" "n div 2 < 2 ^ bit_length (n div 2)"
      using 1 by auto
    have p: "0 < bit_length (n div 2)" using False by (simp add: bit_length_pos)
    have e: "bit_length n = Suc (bit_length (n div 2))" using 1(2) by (rule bit_length_pos)
    have "2 * 2 ^ (bit_length (n div 2) - 1) \<le> n" using ih(1) by linarith
    moreover have "2 * 2 ^ (bit_length (n div 2) - 1) = (2::nat) ^ bit_length (n div 2)"
      using p by (cases "bit_length (n div 2)") simp_all
    moreover have "n < 2 * 2 ^ bit_length (n div 2)" using ih(2) by linarith
    ultimately show ?thesis unfolding e by simp
  qed
qed

lemma bit_length_pos_iff: "0 < n \<Longrightarrow> 0 < bit_length n"
  by (simp add: bit_length_pos)

lemma pow2_nat: "pow2 (int b) = 2 ^ b"
  by (simp add: pow2_def)

lemma pow2_neg_nat: "pow2 (- int b) = 1 / 2 ^ b"
  by (simp add: pow2_def)

lemma pow2_add: "pow2 (j + k) = pow2 j * pow2 k"
  by (simp add: pow2_powi power_int_add)

lemma pow2_pos: "0 < pow2 k"
  by (simp add: pow2_powi)

lemma pow2_mono: "j \<le> k \<Longrightarrow> pow2 j \<le> pow2 k"
  by (simp add: pow2_powi power_int_increasing)

lemma between_powers:
  assumes "0 < n" and "b = bit_length n"
  shows "(2::rat) ^ (b - 1) \<le> rat_of_nat n \<and> rat_of_nat n + 1 \<le> 2 ^ b \<and> 0 < b"
proof -
  have bd: "2 ^ (b - 1) \<le> n" "n < 2 ^ b" using bit_length_bounds[OF assms(1)] assms(2) by simp_all
  have "rat_of_nat (2 ^ (b - 1)) \<le> rat_of_nat n" using bd(1) by (rule of_nat_mono)
  then have 1: "(2::rat) ^ (b - 1) \<le> rat_of_nat n" by simp
  have "Suc n \<le> 2 ^ b" using bd(2) by (rule Suc_leI)
  then have "rat_of_nat (Suc n) \<le> rat_of_nat (2 ^ b)" by (rule of_nat_mono)
  then have 2: "rat_of_nat n + 1 \<le> 2 ^ b" by simp
  show ?thesis using 1 2 bit_length_pos_iff[OF assms(1)] assms(2) by simp
qed

lemma ilog2_bounds:
  assumes "0 < a"
  shows "pow2 (ilog2 a) \<le> a \<and> a < pow2 (ilog2 a + 1)"
proof (cases "1 \<le> a")
  case True
  define n where "n = nat \<lfloor>a\<rfloor>"
  define b where "b = bit_length n"
  have n: "0 < n" using True by (simp add: n_def)
  have fl: "rat_of_nat n \<le> a" "a < rat_of_nat n + 1"
    using True unfolding n_def by simp_all linarith
  note bp = between_powers[OF n b_def]
  have i: "ilog2 a = int (b - 1)" using True bp by (simp add: ilog2_def n_def b_def)
  have i1: "ilog2 a + 1 = int b" using i bp by simp
  have "pow2 (ilog2 a) = 2 ^ (b - 1)" unfolding i by (rule pow2_nat)
  moreover have "pow2 (ilog2 a + 1) = 2 ^ b" unfolding i1 by (rule pow2_nat)
  ultimately show ?thesis using bp fl by linarith
next
  case False
  define c where "c = 1 / a"
  define m where "m = nat (\<lceil>c\<rceil> - 1)"
  define b where "b = bit_length m"
  have c: "1 < c" "0 < c" using False assms by (simp_all add: c_def)
  then have c2: "2 \<le> \<lceil>c\<rceil>" by linarith
  then have m: "0 < m" by (simp add: m_def)
  have cl: "rat_of_nat m < c" "c \<le> rat_of_nat m + 1"
    using c2 unfolding m_def by simp_all linarith+
  note bp = between_powers[OF m b_def]
  have i: "ilog2 a = - int b" using False by (simp add: ilog2_def m_def b_def c_def)
  have i1: "ilog2 a + 1 = - int (b - 1)" unfolding i using bp by simp
  have lo: "(2::rat) ^ (b - 1) < c" using bp cl by linarith
  have hi: "c \<le> (2::rat) ^ b" using bp cl by linarith
  have a: "a = 1 / c" using assms by (simp add: c_def)
  have "1 / 2 ^ b \<le> 1 / c" using hi c(2) by (simp add: frac_le)
  moreover have "1 / c < 1 / 2 ^ (b - 1)" using lo by (simp add: frac_less2)
  moreover have "pow2 (ilog2 a) = 1 / 2 ^ b" unfolding i by (rule pow2_neg_nat)
  moreover have "pow2 (ilog2 a + 1) = 1 / 2 ^ (b - 1)" unfolding i1 by (rule pow2_neg_nat)
  ultimately show ?thesis using a by metis
qed

lemma pow2_less_cancel: "pow2 j < pow2 k \<Longrightarrow> j < k"
  using pow2_mono[of k j] by (cases "j < k") auto

lemma pow2_diff: "pow2 j / pow2 k = pow2 (j - k)"
  using pow2_add[of "j - k" k] pow2_pos[of k] by (simp add: field_simps)

lemma round_half_even_floor: "\<lfloor>z\<rfloor> \<le> round_half_even z \<and> round_half_even z \<le> \<lfloor>z\<rfloor> + 1"
  by (simp add: round_half_even_def Let_def)

lemma round_half_even_near: "\<bar>of_int (round_half_even z) - z\<bar> \<le> 1 / 2"
proof -
  have "of_int \<lfloor>z\<rfloor> \<le> z" "z < of_int \<lfloor>z\<rfloor> + 1" by linarith+
  then show ?thesis by (auto simp: round_half_even_def Let_def abs_le_iff)
qed

lemma round_half_even_ge: "of_int k \<le> z \<Longrightarrow> k \<le> round_half_even z"
  using round_half_even_floor[of z] le_floor_iff[of k z] by linarith

lemma round_half_even_int: "round_half_even (of_int k) = k"
  by (simp add: round_half_even_def)

text \<open>A magnitude of \<open>2^1024\<close> or more overflows.\<close>

lemma to_double_overflow:
  assumes "pow2 1024 \<le> \<bar>x\<bar>"
  shows "to_double x = (if x < 0 then NegInf else PosInf)"
proof -
  define a where "a = \<bar>x\<bar>"
  define e where "e = max (ilog2 a) (- 1022)"
  define ulp where "ulp = pow2 (e - 52)"
  define y where "y = of_int (round_half_even (a / ulp)) * ulp"
  have a: "0 < a" using assms pow2_pos[of 1024] by (simp add: a_def)
  then have x: "x \<noteq> 0" by (auto simp: a_def)
  note b = ilog2_bounds[OF a]
  have "pow2 1024 < pow2 (ilog2 a + 1)" using assms b by (simp add: a_def)
  then have "1024 < ilog2 a + 1" by (rule pow2_less_cancel)
  then have e: "e = ilog2 a" "1024 \<le> e" by (simp_all add: e_def)
  have u: "0 < ulp" by (simp add: ulp_def pow2_pos)
  have "pow2 e / ulp = pow2 52" unfolding ulp_def pow2_diff by simp
  moreover have "pow2 e / ulp \<le> a / ulp" using b u e(1) by (simp add: divide_right_mono)
  moreover have "pow2 52 = of_int (2 ^ 52)" by (simp add: pow2_def)
  ultimately have "of_int (2 ^ 52) \<le> a / ulp" by simp
  then have "2 ^ 52 \<le> round_half_even (a / ulp)" by (rule round_half_even_ge)
  then have "of_int (2 ^ 52) \<le> (of_int (round_half_even (a / ulp)) :: rat)" by (rule of_int_le_iff[THEN iffD2])
  then have "of_int (2 ^ 52) * ulp \<le> y" unfolding y_def using u by (simp add: mult_right_mono)
  moreover have "of_int (2 ^ 52) * ulp = pow2 e"
    using pow2_add[of 52 "e - 52"] by (simp add: ulp_def pow2_def)
  moreover have "pow2 1024 \<le> pow2 e" using e(2) by (rule pow2_mono)
  ultimately have "pow2 1024 \<le> y" by simp
  then show ?thesis
    using x by (simp add: to_double_def Let_def a_def[symmetric] e_def[symmetric] ulp_def[symmetric] y_def[symmetric])
qed

text \<open>A finite result is a multiple of the unit in the last place, at most half a unit
  away from the number.\<close>

lemma to_double_nearest:
  assumes "to_double x = Finite y"
  shows "\<exists>m. y = of_int m * pow2 (max (ilog2 \<bar>x\<bar>) (- 1022) - 52)
           \<and> \<bar>y - x\<bar> \<le> pow2 (max (ilog2 \<bar>x\<bar>) (- 1022) - 52) / 2"
proof (cases "x = 0")
  case True
  then have "y = 0" using assms by (simp add: to_double_def)
  then show ?thesis using True pow2_pos[of "max (ilog2 \<bar>x\<bar>) (- 1022) - 52"]
    by (intro exI[of _ 0]) simp
next
  case False
  define a where "a = \<bar>x\<bar>"
  define ulp where "ulp = pow2 (max (ilog2 a) (- 1022) - 52)"
  define r where "r = round_half_even (a / ulp)"
  have u: "0 < ulp" by (simp add: ulp_def pow2_pos)
  have y: "y = (if x < 0 then - (of_int r * ulp) else of_int r * ulp)"
    using assms False
    by (simp add: to_double_def Let_def a_def[symmetric] ulp_def[symmetric] r_def[symmetric]
        split: if_splits)
  have "\<bar>of_int r - a / ulp\<bar> \<le> 1 / 2" unfolding r_def by (rule round_half_even_near)
  then have "\<bar>of_int r - a / ulp\<bar> * ulp \<le> 1 / 2 * ulp" using u by (simp add: mult_right_mono)
  moreover have "\<bar>of_int r - a / ulp\<bar> * ulp = \<bar>of_int r * ulp - a\<bar>"
    using u by (simp add: abs_mult_pos[symmetric] field_simps)
  ultimately have n: "\<bar>of_int r * ulp - a\<bar> \<le> ulp / 2" by simp
  have d: "\<bar>y - x\<bar> = \<bar>of_int r * ulp - a\<bar>"
    unfolding y a_def by (cases "x < 0") (simp_all add: abs_minus_commute)
  have "y = of_int (if x < 0 then - r else r) * ulp" unfolding y by simp
  then show ?thesis using n d unfolding ulp_def a_def by metis
qed

text \<open>Every binary64 value is kept.\<close>

lemma to_double_exact:
  assumes "\<bar>m\<bar> < 2 ^ 53" and "- 1074 \<le> k" and "k \<le> 971"
  shows "to_double (of_int m * pow2 k) = Finite (of_int m * pow2 k)"
proof (cases "m = 0")
  case True
  then show ?thesis by (simp add: to_double_def)
next
  case False
  define x where "x = rat_of_int m * pow2 k"
  define a where "a = \<bar>x\<bar>"
  define e where "e = max (ilog2 a) (- 1022)"
  define ulp where "ulp = pow2 (e - 52)"
  define y where "y = of_int (round_half_even (a / ulp)) * ulp"
  have am: "a = of_int \<bar>m\<bar> * pow2 k" using pow2_pos[of k] by (simp add: a_def x_def abs_mult)
  have a: "0 < a" using False pow2_pos[of k] by (simp add: am)
  then have x: "x \<noteq> 0" by (auto simp: a_def)
  note b = ilog2_bounds[OF a]
  have "rat_of_int \<bar>m\<bar> < of_int (2 ^ 53)" using assms(1) by (rule of_int_less_iff[THEN iffD2])
  then have "a < of_int (2 ^ 53) * pow2 k" unfolding am using pow2_pos[of k] by (simp add: mult_strict_right_mono)
  moreover have "of_int (2 ^ 53) * pow2 k = pow2 (53 + k)"
    using pow2_add[of 53 k] by (simp add: pow2_def)
  ultimately have lt: "a < pow2 (53 + k)" by simp
  then have "pow2 (ilog2 a) < pow2 (53 + k)" using b by simp
  then have "ilog2 a < 53 + k" by (rule pow2_less_cancel)
  then have ek: "e - 52 \<le> k" using assms(2) by (simp add: e_def)
  define d where "d = nat (k - (e - 52))"
  have "pow2 k / ulp = pow2 (int d)" unfolding ulp_def pow2_diff d_def using ek by simp
  then have "pow2 k / ulp = 2 ^ d" by (simp only: pow2_nat)
  moreover have "a / ulp = of_int \<bar>m\<bar> * (pow2 k / ulp)" unfolding am by simp
  ultimately have "a / ulp = of_int (\<bar>m\<bar> * 2 ^ d)" by simp
  then have "round_half_even (a / ulp) = \<bar>m\<bar> * 2 ^ d" by (simp only: round_half_even_int)
  then have "y = a / ulp * ulp" unfolding y_def using \<open>a / ulp = of_int (\<bar>m\<bar> * 2 ^ d)\<close> by simp
  then have ya: "y = a" using pow2_pos[of "e - 52"] by (simp add: ulp_def)
  have "pow2 (53 + k) \<le> pow2 1024" using assms(3) by (intro pow2_mono) simp
  then have "\<not> pow2 1024 \<le> y" using lt ya by simp
  then have "to_double x = Finite (if x < 0 then - a else a)"
    using x ya by (simp add: to_double_def Let_def a_def[symmetric] e_def[symmetric] ulp_def[symmetric] y_def[symmetric])
  then show ?thesis unfolding a_def x_def[symmetric] by (simp add: abs_if)
qed

lemma ceiling_numeral_div:
  "\<lceil>(numeral a :: rat) / numeral b\<rceil> = - ((- numeral a) div numeral b)"
  using ceiling_divide_eq_div[of "numeral a" "numeral b", where ?'a = rat] by simp

lemmas eval_double = to_double_def ilog2_def pow2_def round_half_even_def bit_length_0
  bit_length_pos floor_numeral_div floor_one_div ceiling_numeral_div Let_def

lemmas eval_float = parseFloat_def parse_unsigned_def exponent_part_def is_space_def
  is_digit_def digits_val_def digit_val_def

text \<open>
  Examples: 1.5 is a binary64 value; 0.1 is not, and neither is \<open>2^53 + 1\<close>, which
  lies halfway between two of them; \<open>1e400\<close> overflows, and the text after the
  literal is ignored.
\<close>

lemma parseFloat_exact: "parseFloat ''1.5000'' = Finite (3 / 2)"
  by (simp add: eval_float) (simp add: eval_double)

lemma parseFloat_rounded: "parseFloat ''0.1'' = Finite (3602879701896397 / 36028797018963968)"
  by (simp add: eval_float) (simp add: eval_double)

lemma parseFloat_tie: "parseFloat ''9007199254740993'' = Finite 9007199254740992"
  by (simp add: eval_float) (simp add: eval_double)

lemma parseFloat_prefix: "parseFloat '' -2.5e-1x'' = Finite (- (1 / 4))"
  by (simp add: eval_float) (simp add: eval_double)

lemma parseFloat_no_number: "parseFloat ''abc'' = NaN"
  by (simp add: eval_float)

lemma parseFloat_infinity: "parseFloat ''-Infinity'' = NegInf"
  by (simp add: eval_float)

lemma parseFloat_overflow: "parseFloat ''1e400'' = PosInf"
proof -
  have "parseFloat ''1e400'' = to_double (10 ^ 400)" by (simp add: eval_float)
  moreover have "pow2 1024 \<le> \<bar>10 ^ 400 :: rat\<bar>" by (simp add: pow2_def)
  ultimately show ?thesis using to_double_overflow[of "10 ^ 400"] by simp
qed

section \<open>Facts about the tokens\<close>

lemma delim_not_space: "is_delim d \<Longrightarrow> \<not> is_space d"
  by (auto simp: is_delim_def is_space_def)

lemma split_tokens_Nil: "split_tokens cur [] = [cur]"
  by (subst split_tokens.simps) (simp add: match_delim_def)

lemma split_tokens_match:
  "match_delim s = Some (d, r) \<Longrightarrow> split_tokens cur s = cur # [d] # split_tokens [] r"
  by (subst split_tokens.simps) simp

lemma split_tokens_char:
  "match_delim (c # cs) = None \<Longrightarrow> split_tokens cur (c # cs) = split_tokens (cur @ [c]) cs"
  by (subst split_tokens.simps) simp

lemma match_delim_delim:
  "is_delim d \<Longrightarrow> match_delim (d # rest) = Some (d, dropWhile is_space rest)"
  by (simp add: match_delim_def delim_not_space)

lemma match_delim_text:
  assumes "\<forall>c\<in>set x. \<not> is_delim c" and "x \<noteq> []" and "\<not> is_space (last x)"
  shows "match_delim (x @ rest) = None"
proof -
  have l: "last x \<in> set x" using assms(2) by simp
  have dw: "dropWhile is_space (x @ rest) = dropWhile is_space x @ rest"
    using l assms(3) by (rule dropWhile_append1)
  have ne: "dropWhile is_space x \<noteq> []"
    using l assms(3) by (auto simp: dropWhile_eq_Nil_conv)
  then obtain c r where cr: "dropWhile is_space x = c # r" by (cases "dropWhile is_space x") auto
  then have "c \<in> set x" by (metis list.set_intros(1) set_dropWhileD)
  then have "\<not> is_delim c" using assms(1) by blast
  then show ?thesis by (simp add: match_delim_def dw cr)
qed

lemma match_delim_text_end:
  assumes "\<forall>c\<in>set x. \<not> is_delim c"
  shows "match_delim x = None"
proof (cases "dropWhile is_space x")
  case Nil
  show ?thesis unfolding match_delim_def Nil by simp
next
  case (Cons c r)
  then have "c \<in> set x" by (metis list.set_intros(1) set_dropWhileD)
  then have "\<not> is_delim c" using assms(1) by blast
  then show ?thesis unfolding match_delim_def Cons by simp
qed

lemma split_text_delim:
  assumes "\<forall>c\<in>set x. \<not> is_delim c" and "x = [] \<or> \<not> is_space (last x)" and "is_delim d"
  shows "split_tokens cur (x @ d # rest)
     = (cur @ x) # [d] # split_tokens [] (dropWhile is_space rest)"
  using assms
proof (induction x arbitrary: cur)
  case Nil
  then show ?case by (simp add: split_tokens_match match_delim_delim)
next
  case (Cons c x)
  have m: "match_delim ((c # x) @ d # rest) = None"
    using Cons.prems by (intro match_delim_text) auto
  have "x = [] \<or> \<not> is_space (last x)" using Cons.prems(2) by (auto split: if_splits)
  then have "split_tokens (cur @ [c]) (x @ d # rest)
      = ((cur @ [c]) @ x) # [d] # split_tokens [] (dropWhile is_space rest)"
    using Cons.IH Cons.prems by simp
  then show ?case using m by (simp add: split_tokens_char)
qed

lemma split_text_end:
  assumes "\<forall>c\<in>set x. \<not> is_delim c"
  shows "split_tokens cur x = [cur @ x]"
  using assms
proof (induction x arbitrary: cur)
  case Nil
  then show ?case by (simp add: split_tokens_Nil)
next
  case (Cons c x)
  have "match_delim (c # x) = None" using Cons.prems by (rule match_delim_text_end)
  then show ?case using Cons by (simp add: split_tokens_char)
qed

lemma good_no_leading_space: "good ts \<Longrightarrow> dropWhile is_space (concat ts) = concat ts"
proof (induction ts rule: good.induct)
  case 1
  then show ?case by simp
next
  case (2 x)
  then show ?case by (cases x) (auto simp: safe_text_def)
next
  case (3 x y ts)
  then show ?case
    by (cases x; cases y) (auto simp: safe_text_def delim_not_space)
qed

lemma split_good: "good ts \<Longrightarrow> split_tokens [] (concat ts) = ts"
proof (induction ts rule: good.induct)
  case 1
  then show ?case by simp
next
  case (2 x)
  then show ?case using split_text_end[of x "[]"] by (simp add: safe_text_def list_all_iff)
next
  case (3 x y ts)
  then obtain d where y: "y = [d]" and d: "is_delim d"
    by (cases y) auto
  have x: "\<forall>c\<in>set x. \<not> is_delim c" "x = [] \<or> \<not> is_space (last x)"
    using 3(2) by (auto simp: safe_text_def list_all_iff)
  have "split_tokens [] (x @ d # concat ts)
      = ([] @ x) # [d] # split_tokens [] (dropWhile is_space (concat ts))"
    using x d by (rule split_text_delim)
  then show ?case using 3 y by (simp add: good_no_leading_space)
qed

lemma concat_join: "concat (join [s] xss) = join s (map concat xss)"
  by (induction "[s]" xss rule: join.induct) auto

lemma toNewick_concat_toks: "toNewick big t = concat (toks big t)"
proof (induction t)
  case (ClusterNode n h cs)
  show ?case
  proof (cases cs)
    case None
    then show ?thesis by simp
  next
    case (Some ks)
    have "map (toNewick big) ks = map (concat \<circ> toks big) ks"
      using ClusterNode Some by auto
    then have "join '','' (map (toNewick big) ks) = concat (join ['',''] (map (toks big) ks))"
      by (simp only: concat_join map_map)
    then show ?thesis using Some by simp
  qed
qed

lemma good_append:
  "good xs \<Longrightarrow> is_delim d \<Longrightarrow> good ys \<Longrightarrow> good (xs @ [d] # ys)"
  by (induction xs rule: good.induct) auto

lemma good_join:
  "tss \<noteq> [] \<Longrightarrow> \<forall>ts\<in>set tss. good ts \<Longrightarrow> good (join ['',''] tss)"
proof (induction "['','']" tss rule: join.induct)
  case 1
  then show ?case by simp
next
  case (2 x)
  then show ?case by simp
next
  case (3 x y ys)
  have "good (x @ [CHR '',''] # join ['',''] (y # ys))"
    using 3 by (intro good_append) (auto simp: is_delim_def)
  then show ?case by simp
qed

lemma good_toks: "safe_tree big t \<Longrightarrow> good (toks big t)"
proof (induction t)
  case (ClusterNode n h cs)
  show ?case
  proof (cases cs)
    case None
    then show ?thesis using ClusterNode.prems by simp
  next
    case (Some ks)
    show ?thesis
    proof (cases "ks = []")
      case True
      then show ?thesis using ClusterNode.prems Some by simp
    next
      case False
      have "\<forall>ts\<in>set (map (toks big) ks). good ts"
        using ClusterNode Some False by (auto simp: list_all_iff)
      then have g: "good (join ['',''] (map (toks big) ks))"
        using False by (intro good_join) auto
      have "good (join ['',''] (map (toks big) ks) @ [CHR '')''] # [toFixed big 4 h])"
        using g ClusterNode.prems Some False by (intro good_append) (auto simp: is_delim_def)
      then show ?thesis using Some False by (simp add: safe_text_def is_delim_def)
    qed
  qed
qed

lemma split_toNewick: "safe_tree big t \<Longrightarrow> split (toNewick big t) = toks big t"
  by (simp add: split_def toNewick_concat_toks split_good good_toks)

section \<open>Facts about the loop\<close>

lemma run_append:
  "zrun prev (xs @ ys) st =
     (case zrun prev xs st of
        Inl e \<Rightarrow> Inl e
      | Inr st' \<Rightarrow> zrun (if xs = [] then prev else Some (last xs)) ys st')"
  by (induction xs arbitrary: prev st) (auto split: sum.splits)

lemma safe_text_not_delim:
  "safe_text s \<Longrightarrow> s \<noteq> ''('' \<and> s \<noteq> '','' \<and> s \<noteq> '')'' \<and> s \<noteq> '':''"
  by (auto simp: safe_text_def is_delim_def)

lemma step_name:
  "safe_text s \<Longrightarrow> starts prev \<or> prev = Some '')'' \<Longrightarrow>
   zstep prev s (At t fs) = Inr (At (PNode (Some s) (pheight t) (pchildren t)) fs)"
  using safe_text_not_delim[of s] by (auto simp: zstep_def starts_def)

lemma step_open:
  "zstep prev ''('' (At t fs) = Inr (At empty_node (Frame (pname t) (pheight t) [] # fs))"
  by (simp add: zstep_def)

lemma step_comma:
  "zstep prev '','' (At t (Frame n h b # fs)) = Inr (At empty_node (Frame n h (b @ [t]) # fs))"
  by (simp add: zstep_def)

lemma step_close:
  "zstep prev '')'' (At t (Frame n h b # fs)) = Inr (At (PNode n h (Some (b @ [t]))) fs)"
  by (simp add: zstep_def)

lemma map_butlast_last: "ks \<noteq> [] \<Longrightarrow> map f (butlast ks) @ [f (last ks)] = map f ks"
  by (induction ks) auto

lemma run_children:
  assumes "ks \<noteq> []" and "\<forall>k\<in>set ks. parses big k" and "starts prev"
  shows "zrun prev (join ['',''] (map (toks big) ks) @ rest) (At empty_node (Frame n h b # fs))
     = zrun (Some (last (toks big (last ks)))) rest
         (At (img big (last ks)) (Frame n h (b @ map (img big) (butlast ks)) # fs))"
  using assms
proof (induction ks arbitrary: prev b)
  case Nil
  then show ?case by simp
next
  case (Cons k ks)
  have pk: "parses big k" using Cons.prems by simp
  show ?case
  proof (cases ks)
    case Nil
    then show ?thesis using pk Cons.prems(3) by (simp add: parses_def)
  next
    case (Cons k' ks')
    have j: "join ['',''] (map (toks big) (k # ks)) @ rest
        = toks big k @ ('','' # join ['',''] (map (toks big) ks) @ rest)"
      using Cons by simp
    have 1: "zrun prev (toks big k @ ('','' # join ['',''] (map (toks big) ks) @ rest))
               (At empty_node (Frame n h b # fs))
        = zrun (Some (last (toks big k))) ('','' # join ['',''] (map (toks big) ks) @ rest)
               (At (img big k) (Frame n h b # fs))"
      using pk Cons.prems(3) by (simp add: parses_def)
    have 2: "zrun (Some (last (toks big k))) ('','' # join ['',''] (map (toks big) ks) @ rest)
               (At (img big k) (Frame n h b # fs))
        = zrun (Some '','') (join ['',''] (map (toks big) ks) @ rest)
               (At empty_node (Frame n h (b @ [img big k]) # fs))"
      by (simp add: step_comma)
    have 3: "zrun (Some '','') (join ['',''] (map (toks big) ks) @ rest)
               (At empty_node (Frame n h (b @ [img big k]) # fs))
        = zrun (Some (last (toks big (last ks)))) rest
            (At (img big (last ks))
               (Frame n h ((b @ [img big k]) @ map (img big) (butlast ks)) # fs))"
      using Cons.prems Cons by (intro Cons.IH) (auto simp: starts_def)
    show ?thesis unfolding j 1 2 3 using Cons by simp
  qed
qed

lemma parses_all: "safe_tree big t \<Longrightarrow> parses big t"
proof (induction t)
  case (ClusterNode n h cs)
  have leaf: "parses big (ClusterNode n h cs)" if c: "cs = None \<or> cs = Some []"
  proof -
    have s: "safe_text n" using c ClusterNode.prems by auto
    have tk: "toks big (ClusterNode n h cs) = [n]" using c by auto
    have im: "img big (ClusterNode n h cs) = PNode (Some n) None None" using c by auto
    show ?thesis
      unfolding parses_def tk im
      by (simp add: step_name[OF s] empty_node_def)
  qed
  show ?case
  proof (cases "cs = None \<or> cs = Some []")
    case True
    then show ?thesis by (rule leaf)
  next
    case False
    then obtain ks where cs: "cs = Some ks" and ks: "ks \<noteq> []" by (cases cs) auto
    have kids: "\<forall>k\<in>set ks. parses big k"
      using ClusterNode cs ks by (auto simp: list_all_iff)
    have lab: "safe_text (toFixed big 4 h)" using ClusterNode.prems cs ks by simp
    let ?J = "join ['',''] (map (toks big) ks)"
    let ?L = "toFixed big 4 h"
    have tk: "toks big (ClusterNode n h cs) = [] # ''('' # ?J @ ['')'', ?L]"
      using cs ks by simp
    have im: "img big (ClusterNode n h cs) = PNode (Some ?L) None (Some (map (img big) ks))"
      using cs ks by simp
    have bl: "map (img big) (butlast ks) @ [img big (last ks)] = map (img big) ks"
      using ks by (rule map_butlast_last)
    show ?thesis unfolding parses_def
    proof (intro allI impI)
      fix prev fs rest
      assume st: "starts prev"
      have e: "safe_text []" by (simp add: safe_text_def)
      have "zrun prev (toks big (ClusterNode n h cs) @ rest) (At empty_node fs)
          = zrun (Some ''('') (?J @ ('')'' # ?L # rest))
              (At empty_node (Frame (Some []) None [] # fs))"
        unfolding tk using st by (simp add: step_name[OF e] step_open empty_node_def)
      also have "\<dots> = zrun (Some (last (toks big (last ks)))) ('')'' # ?L # rest)
              (At (img big (last ks))
                 (Frame (Some []) None ([] @ map (img big) (butlast ks)) # fs))"
        using ks kids by (intro run_children) (auto simp: starts_def)
      also have "\<dots> = zrun (Some ?L) rest (At (PNode (Some ?L) None (Some (map (img big) ks))) fs)"
        using bl by (simp add: step_close step_name[OF lab])
      finally show "zrun prev (toks big (ClusterNode n h cs) @ rest) (At empty_node fs)
          = zrun (Some (last (toks big (ClusterNode n h cs)))) rest
              (At (img big (ClusterNode n h cs)) fs)"
        unfolding im tk by simp
    qed
  qed
qed

lemma zfill_img: "zfill (img big t) = reparsed big t"
  by (induction t) (auto split: option.splits)

lemma fromNewick_zip_toNewick:
  assumes "safe_tree big t"
  shows "fromNewick_zip (toNewick big t) = Inr (reparsed big t)"
proof -
  have "parses big t" using assms by (rule parses_all)
  moreover have "starts None" by (simp add: starts_def)
  ultimately have "zrun None (toks big t @ []) (At empty_node [])
      = zrun (Some (last (toks big t))) [] (At (img big t) [])"
    unfolding parses_def by blast
  then show ?thesis
    using assms by (simp add: fromNewick_zip_def split_toNewick zfill_img)
qed

section \<open>Safe texts\<close>

lemma plain_safe: "list_all plain s \<Longrightarrow> safe_text s"
proof (cases s)
  case Nil
  then show ?thesis by (simp add: safe_text_def)
next
  case (Cons c r)
  assume a: "list_all plain s"
  have "hd s \<in> set s" "last s \<in> set s" using Cons by auto
  then show ?thesis using a by (auto simp: safe_text_def list_all_iff plain_def)
qed

lemma digit_plain: "is_digit c \<Longrightarrow> plain c"
  by (auto simp: is_digit_def plain_def is_delim_def is_space_def)

lemma toFixed4_safe_finite:
  assumes "\<bar>x\<bar> < 10 ^ 21"
  shows "safe_text (toFixed big 4 (Finite x))"
proof -
  obtain a b where e: "toFixed big 4 (Finite x) = (if x < 0 then ''-'' else []) @ a @ ''.'' @ b"
    and d: "list_all is_digit (a @ b)"
    using toFixed4_finite[OF assms, of big] by blast
  have "list_all plain (a @ b)" using d by (auto simp: list_all_iff digit_plain)
  moreover have "plain (CHR ''-'')" "plain (CHR ''.'')"
    by (simp_all add: plain_def is_delim_def is_space_def)
  ultimately have "list_all plain (toFixed big 4 (Finite x))" unfolding e by auto
  then show ?thesis by (rule plain_safe)
qed

lemma safe_text_minus: "safe_text s \<Longrightarrow> safe_text (CHR ''-'' # s)"
  by (cases s) (auto simp: safe_text_def is_delim_def is_space_def)

lemma toFixed4_safe:
  assumes "\<forall>x. 10 ^ 21 \<le> x \<longrightarrow> safe_text (big x)"
  shows "safe_text (toFixed big 4 h)"
proof (cases h)
  case (Finite x)
  show ?thesis
  proof (cases "\<bar>x\<bar> < 10 ^ 21")
    case True
    then show ?thesis unfolding Finite by (rule toFixed4_safe_finite)
  next
    case False
    then have s: "safe_text (big \<bar>x\<bar>)" using assms by simp
    have "toFixed big 4 h = (if x < 0 then ''-'' else []) @ big \<bar>x\<bar>"
      using False Finite by (simp add: toFixed_def)
    then show ?thesis using s by (cases "x < 0") (simp_all add: safe_text_minus)
  qed
next
  case NaN
  then show ?thesis by (simp add: toFixed_def safe_text_def is_delim_def is_space_def)
next
  case PosInf
  then show ?thesis by (simp add: toFixed_def safe_text_def is_delim_def is_space_def)
next
  case NegInf
  then show ?thesis by (simp add: toFixed_def safe_text_def is_delim_def is_space_def)
qed

lemma safe_tree_names:
  assumes "\<forall>x. 10 ^ 21 \<le> x \<longrightarrow> safe_text (big x)"
  shows "list_all safe_text (leaf_names t) \<Longrightarrow> safe_tree big t"
proof (induction t)
  case (ClusterNode n h cs)
  show ?case
  proof (cases cs)
    case None
    then show ?thesis using ClusterNode.prems by simp
  next
    case (Some ks)
    show ?thesis
    proof (cases "ks = []")
      case True
      then show ?thesis using ClusterNode.prems Some by simp
    next
      case False
      have "\<forall>k\<in>set ks. safe_tree big k"
        using ClusterNode Some False by (auto simp: list_all_iff)
      then show ?thesis using Some False toFixed4_safe[OF assms] by (simp add: list_all_iff)
    qed
  qed
qed

lemma leaf_names_reparsed: "leaf_names (reparsed big t) = leaf_names t"
proof (induction t)
  case (ClusterNode n h cs)
  show ?case
  proof (cases cs)
    case None
    then show ?thesis by simp
  next
    case (Some ks)
    have "map (leaf_names \<circ> reparsed big) ks = map leaf_names ks"
      using ClusterNode Some by auto
    then show ?thesis using Some by (simp del: map_eq_conv)
  qed
qed

lemma toNewick_forget: "toNewick big (forget t) = toNewick big t"
proof (induction t)
  case (ClusterNode n h cs)
  show ?case
  proof (cases cs)
    case None
    then show ?thesis by simp
  next
    case (Some ks)
    have "map (toNewick big \<circ> forget) ks = map (toNewick big) ks"
      using ClusterNode Some by auto
    then show ?thesis using Some by (simp del: map_eq_conv)
  qed
qed

section \<open>The loop on the store and the loop on values\<close>

text \<open>
  The objects of the store are created in the order of their indices, and an object
  refers only to objects created after it. So the objects a node reaches lie in a
  segment of the store that later assignments to other objects leave alone, and the
  value a node stands for changes only when the loop assigns to that node.
\<close>

lemma closed_segI:
  assumes "p \<le> length h"
    and "\<And>x cs c. b \<le> x \<Longrightarrow> x < p \<Longrightarrow> cchildren (h ! x) = Some cs \<Longrightarrow> c \<in> set cs
           \<Longrightarrow> x < c \<and> c < p"
  shows "closed_seg h b p"
  unfolding closed_seg_def using assms by blast

lemma closed_segD:
  assumes "closed_seg h b p" and "b \<le> x" and "x < p" and "cchildren (h ! x) = Some cs"
    and "c \<in> set cs"
  shows "x < c \<and> c < p"
  using assms unfolding closed_seg_def by blast

lemma closed_seg_le: "closed_seg h b p \<Longrightarrow> p \<le> length h"
  unfolding closed_seg_def by simp

lemma closed_seg_sub: "closed_seg h b p \<Longrightarrow> b \<le> b' \<Longrightarrow> closed_seg h b' p"
proof (rule closed_segI)
  assume c: "closed_seg h b p" and b: "b \<le> b'"
  show "p \<le> length h" using c by (rule closed_seg_le)
  fix x cs k
  assume "b' \<le> x" "x < p" "cchildren (h ! x) = Some cs" "k \<in> set cs"
  then show "x < k \<and> k < p" using closed_segD[OF c, of x cs k] b by simp
qed

lemma closed_seg_join:
  "closed_seg h b m \<Longrightarrow> closed_seg h m p \<Longrightarrow> m \<le> p \<Longrightarrow> closed_seg h b p"
proof (rule closed_segI)
  assume c1: "closed_seg h b m" and c2: "closed_seg h m p" and mp: "m \<le> p"
  show "p \<le> length h" using c2 by (rule closed_seg_le)
  fix x cs k
  assume x: "b \<le> x" "x < p" and cs: "cchildren (h ! x) = Some cs" "k \<in> set cs"
  show "x < k \<and> k < p"
  proof (cases "x < m")
    case True
    then have "x < k \<and> k < m" using closed_segD[OF c1 x(1) _ cs] by simp
    then show ?thesis using mp by simp
  next
    case False
    then have "m \<le> x" by simp
    then show ?thesis using closed_segD[OF c2 _ x(2) cs] by simp
  qed
qed

lemma closed_seg_frame:
  assumes "closed_seg h b p" and "\<forall>x. b \<le> x \<and> x < p \<longrightarrow> h' ! x = h ! x"
    and "length h \<le> length h'"
  shows "closed_seg h' b p"
proof (rule closed_segI)
  show "p \<le> length h'" using closed_seg_le[OF assms(1)] assms(3) by simp
  fix x cs k
  assume x: "b \<le> x" "x < p" and cs: "cchildren (h' ! x) = Some cs" "k \<in> set cs"
  have "h' ! x = h ! x" using assms(2) x by simp
  then have "cchildren (h ! x) = Some cs" using cs(1) by simp
  then show "x < k \<and> k < p" using closed_segD[OF assms(1) x _ cs(2)] by simp
qed

lemma rep_frame:
  assumes "rep h a t" and "closed_seg h b p" and "b \<le> a" and "a < p"
    and "\<forall>x. b \<le> x \<and> x < p \<longrightarrow> h' ! x = h ! x"
  shows "rep h' a t"
  using assms
proof (induction rule: rep.induct)
  case (rep_leaf h a)
  have e: "h' ! a = h ! a" using rep_leaf by simp
  have "rep h' a (PNode (cname (h' ! a)) (cheight (h' ! a)) None)"
    using rep_leaf e by (intro rep.rep_leaf) simp
  then show ?case using e by simp
next
  case (rep_node h a cs ts)
  have e: "h' ! a = h ! a" using rep_node by simp
  have in_p: "\<forall>c\<in>set cs. a < c \<and> c < p"
    using closed_segD[OF rep_node.prems(1,2,3) rep_node.hyps(1)] by blast
  have "list_all2 (rep h') cs ts"
    using rep_node.IH in_p rep_node.prems
    by (induction cs ts rule: list_all2_induct) auto
  then have "rep h' a (PNode (cname (h' ! a)) (cheight (h' ! a)) (Some ts))"
    using rep_node.hyps(1) e by (intro rep.rep_node) simp_all
  then show ?case using e by simp
qed

lemma rep_frame_list:
  assumes "list_all2 (rep h) bs ts" and "closed_seg h b p" and "\<forall>s\<in>set bs. b \<le> s \<and> s < p"
    and "\<forall>x. b \<le> x \<and> x < p \<longrightarrow> h' ! x = h ! x"
  shows "list_all2 (rep h') bs ts"
  using assms(1,3)
proof (induction bs ts rule: list_all2_induct)
  case Nil
  then show ?case by simp
next
  case (Cons s bs t ts)
  have "rep h' s t" using Cons.hyps(1) assms(2) _ _ assms(4) by (rule rep_frame) (use Cons.prems in auto)
  then show ?case using Cons by simp
qed

lemma those_map_Some:
  "list_all2 (\<lambda>c t. g c = Some (k t)) cs ts \<Longrightarrow> those (map g cs) = Some (map k ts)"
  by (induction cs ts rule: list_all2_induct) auto

lemma fill_rep:
  assumes "rep h a t" and "closed_seg h a p" and "a < p" and "p - a \<le> f"
  shows "fillDefaults f h a = Some (zfill t)"
  using assms
proof (induction f arbitrary: a t)
  case 0
  then show ?case by simp
next
  case (Suc f)
  from Suc.prems(1) show ?case
  proof (cases rule: rep.cases)
    case rep_leaf
    then show ?thesis by simp
  next
    case (rep_node cs ts)
    have in_p: "\<forall>c\<in>set cs. a < c \<and> c < p"
      using closed_segD[OF Suc.prems(2) le_refl Suc.prems(3) rep_node(2)] by blast
    have "list_all2 (\<lambda>c t. fillDefaults f h c = Some (zfill t)) cs ts"
      using rep_node(3) in_p
    proof (induction cs ts rule: list_all2_induct)
      case Nil
      then show ?case by simp
    next
      case (Cons c cs t ts)
      have "closed_seg h c p" using Suc.prems(2) Cons.prems by (intro closed_seg_sub[of h a p c]) auto
      moreover have "p - c \<le> f" using Cons.prems Suc.prems(4) by auto
      ultimately have "fillDefaults f h c = Some (zfill t)"
        using Cons.hyps(1) Cons.prems by (intro Suc.IH) auto
      then show ?case using Cons by simp
    qed
    then have "those (map (fillDefaults f h) cs) = Some (map zfill ts)"
      by (rule those_map_Some)
    then show ?thesis using rep_node by simp
  qed
qed

lemma path_frame:
  assumes "path h a fs anc" and "\<forall>x. x < a \<longrightarrow> h' ! x = h ! x" and "length h \<le> length h'"
  shows "path h' a fs anc"
  using assms
proof (induction h a fs anc rule: path.induct)
  case (1 h a)
  then show ?case by simp
next
  case (2 h a fr fs q anc)
  from 2(2) obtain bs where q: "q < a" "cname (h ! q) = fname fr" "cheight (h ! q) = fheight fr"
    and bs: "cchildren (h ! q) = Some (bs @ [a])" "list_all2 (rep h) bs (before fr)"
      "\<forall>s\<in>set bs. q < s \<and> s < a"
    and cl: "closed_seg h (Suc q) a" and p: "path h q fs anc"
    by auto
  have e: "h' ! q = h ! q" using q(1) 2(3) by simp
  have seg: "\<forall>x. Suc q \<le> x \<and> x < a \<longrightarrow> h' ! x = h ! x" using 2(3) by simp
  have cl': "closed_seg h' (Suc q) a" using cl seg 2(4) by (rule closed_seg_frame)
  have b': "list_all2 (rep h') bs (before fr)"
    using bs(2) cl _ seg by (rule rep_frame_list) (use bs(3) in auto)
  have "\<forall>x. x < q \<longrightarrow> h' ! x = h ! x" using q(1) 2(3) by simp
  then have p': "path h' q fs anc" using p 2(4) by (intro 2(1))
  show ?case using q e bs(1,3) b' cl' p' by auto
qed simp_all

lemma rep_fields: "rep h a t \<Longrightarrow> pname t = cname (h ! a) \<and> pheight t = cheight (h ! a)"
  by (erule rep.cases) auto

lemma rep_empty: "h ! a = empty_cell \<Longrightarrow> rep h a empty_node"
  using rep_leaf[of h a] by (simp add: empty_cell_def empty_node_def)

lemma closed_seg_fresh: "closed_seg (h @ [empty_cell]) (length h) (Suc (length h))"
proof (rule closed_segI)
  show "Suc (length h) \<le> length (h @ [empty_cell])" by simp
  fix x cs c
  assume "length h \<le> x" "x < Suc (length h)" "cchildren ((h @ [empty_cell]) ! x) = Some cs"
  then show "x < c \<and> c < Suc (length h)" by (simp add: nth_append empty_cell_def)
qed

text \<open>What allocating the new object keeps.\<close>

lemma alloc_keeps:
  assumes "a < length h" and "rep h a t" and "closed_seg h a (length h)" and "path h a fs anc"
  shows "rep (h @ [empty_cell]) a t"
    and "closed_seg (h @ [empty_cell]) a (Suc (length h))"
    and "path (h @ [empty_cell]) a fs anc"
proof -
  let ?h1 = "h @ [empty_cell]"
  have same: "\<forall>x. x < length h \<longrightarrow> ?h1 ! x = h ! x" by (simp add: nth_append)
  show "rep ?h1 a t"
    using assms(2,3) le_refl assms(1) by (rule rep_frame) (use same in simp)
  have "closed_seg ?h1 a (length h)"
    using assms(3) by (rule closed_seg_frame) (use same in simp_all)
  then show "closed_seg ?h1 a (Suc (length h))"
    using closed_seg_fresh by (rule closed_seg_join) simp
  show "path ?h1 a fs anc"
    using assms(4) by (rule path_frame) (use same assms(1) in simp_all)
qed

lemma sim_alloc:
  assumes "agree (HState h tr anc) zs"
  shows "agree (HState (h @ [empty_cell]) tr anc) zs"
proof (cases zs)
  case Lost
  then show ?thesis using assms by simp
next
  case (At t fs)
  then obtain a where a: "tr = Some a" "a < length h" "rep h a t" "closed_seg h a (length h)"
    "path h a fs anc" using assms by auto
  show ?thesis using At a(1,2) alloc_keeps[OF a(2-5)] by auto
qed

lemma sim_fresh: "agree (HState (h @ [empty_cell]) (Some (length h)) []) (At empty_node [])"
proof -
  have "rep (h @ [empty_cell]) (length h) empty_node" by (rule rep_empty) simp
  then show ?thesis using closed_seg_fresh[of h] by simp
qed

text \<open>Updating the name or the height of an object keeps what it and the rest stand for.\<close>

lemma update_self:
  assumes "a < length h" and "rep h a t" and "closed_seg h a p"  and "a < p"
    and "path h a fs anc" and "cchildren c' = cchildren (h ! a)"
  shows "rep (h[a := c']) a (PNode (cname c') (cheight c') (pchildren t))"
    and "closed_seg (h[a := c']) a p"
    and "path (h[a := c']) a fs anc"
proof -
  let ?h' = "h[a := c']"
  have at_a: "?h' ! a = c'" using assms(1) by simp
  have other: "\<forall>x. x \<noteq> a \<longrightarrow> ?h' ! x = h ! x" by simp
  have cl: "closed_seg h (Suc a) p" using assms(3) by (rule closed_seg_sub) simp
  from assms(2) show "rep ?h' a (PNode (cname c') (cheight c') (pchildren t))"
  proof (cases rule: rep.cases)
    case rep_leaf
    then have "cchildren (?h' ! a) = None" using at_a assms(6) by simp
    then have "rep ?h' a (PNode (cname (?h' ! a)) (cheight (?h' ! a)) None)" by (rule rep.rep_leaf)
    then show ?thesis using rep_leaf at_a by simp
  next
    case (rep_node cs ts)
    have c: "cchildren (?h' ! a) = Some cs" using at_a assms(6) rep_node by simp
    have in_p: "\<forall>c\<in>set cs. a < c \<and> c < p"
      using closed_segD[OF assms(3) le_refl assms(4) rep_node(2)] by blast
    have "list_all2 (rep ?h') cs ts"
      using rep_node(3) cl by (rule rep_frame_list) (use in_p other in auto)
    then have "rep ?h' a (PNode (cname (?h' ! a)) (cheight (?h' ! a)) (Some ts))"
      using c by (intro rep.rep_node)
    then show ?thesis using rep_node at_a by simp
  qed
  show "closed_seg ?h' a p"
  proof (rule closed_segI)
    show "p \<le> length ?h'" using closed_seg_le[OF assms(3)] by simp
    fix x cs k
    assume x: "a \<le> x" "x < p" and cs: "cchildren (?h' ! x) = Some cs" "k \<in> set cs"
    have "cchildren (h ! x) = Some cs"
      using cs(1) at_a assms(6) other by (cases "x = a") auto
    then show "x < k \<and> k < p" using closed_segD[OF assms(3) x _ cs(2)] by simp
  qed
  show "path ?h' a fs anc"
    using assms(5) by (rule path_frame) (use other in auto)
qed

lemma sim_update:
  assumes "agree (HState h (Some a) anc) (At t fs)"
    and "cchildren c' = cchildren ((h @ [empty_cell]) ! a)"
  shows "agree (HState ((h @ [empty_cell])[a := c']) (Some a) anc)
           (At (PNode (cname c') (cheight c') (pchildren t)) fs)"
proof -
  let ?h1 = "h @ [empty_cell]"
  have a: "a < length h" "rep h a t" "closed_seg h a (length h)" "path h a fs anc"
    using assms(1) by auto
  note k = alloc_keeps[OF a]
  have a1: "a < length ?h1" using a(1) by simp
  have "a < Suc (length h)" using a(1) by simp
  note u = update_self[OF a1 k(1) k(2) this k(3) assms(2)]
  show ?thesis using a1 u by simp
qed

lemma sim_push:
  assumes "agree (HState h (Some a) anc) (At t fs)"
    and "list_all2 (rep h) bs ks" and "\<forall>s\<in>set bs. a < s \<and> s < length h"
  shows "agree (HState ((h @ [empty_cell])[a := ((h @ [empty_cell]) ! a)\<lparr>cchildren := Some (bs @ [length h])\<rparr>])
                  (Some (length h)) (a # anc))
           (At empty_node (Frame (pname t) (pheight t) ks # fs))"
proof -
  let ?h1 = "h @ [empty_cell]"
  let ?h2 = "?h1[a := (?h1 ! a)\<lparr>cchildren := Some (bs @ [length h])\<rparr>]"
  have a: "a < length h" "rep h a t" "closed_seg h a (length h)" "path h a fs anc"
    using assms(1) by auto
  note k = alloc_keeps[OF a]
  have at_a: "?h2 ! a = (?h1 ! a)\<lparr>cchildren := Some (bs @ [length h])\<rparr>" using a(1) by simp
  have other: "\<forall>x. x \<noteq> a \<longrightarrow> ?h2 ! x = ?h1 ! x" by simp
  have old: "\<forall>x. x \<noteq> a \<and> x < length h \<longrightarrow> ?h2 ! x = h ! x" by (simp add: nth_append)
  have sub: "?h2 ! length h = empty_cell" using a(1) by simp
  have r: "rep ?h2 (length h) empty_node" using sub by (rule rep_empty)
  have "closed_seg ?h1 (length h) (Suc (length h))" by (rule closed_seg_fresh)
  then have c: "closed_seg ?h2 (length h) (length ?h2)"
    using a(1) by (intro closed_seg_frame[where h = ?h1 and h' = ?h2]) auto
  have f: "cname (?h2 ! a) = pname t" "cheight (?h2 ! a) = pheight t"
    using rep_fields[OF k(1)] at_a by simp_all
  have ch: "closed_seg h (Suc a) (length h)" using a(3) by (rule closed_seg_sub) simp
  then have cs: "closed_seg ?h2 (Suc a) (length h)"
    by (rule closed_seg_frame) (use old in auto)
  have bs: "list_all2 (rep ?h2) bs ks"
    using assms(2) ch by (rule rep_frame_list) (use assms(3) old in auto)
  have p: "path ?h2 a fs anc"
    using k(3) by (rule path_frame) (use other in auto)
  have kids: "cchildren (?h2 ! a) = Some (bs @ [length h])" using at_a by simp
  have "path ?h2 (length h) (Frame (pname t) (pheight t) ks # fs) (a # anc)"
    unfolding path.simps frame.sel using a(1) f kids bs assms(3) cs p
    by (intro conjI exI[of _ bs]) simp_all
  moreover have "length h < length ?h2" by simp
  ultimately show ?thesis unfolding agree.simps using r c by blast
qed

lemma sim_open:
  assumes "agree (HState h (Some a) anc) (At t fs)"
  shows "agree (HState ((h @ [empty_cell])[a := ((h @ [empty_cell]) ! a)\<lparr>cchildren := Some [length h]\<rparr>])
                  (Some (length h)) (a # anc))
           (At empty_node (Frame (pname t) (pheight t) [] # fs))"
proof -
  have 1: "list_all2 (rep h) [] []" by simp
  have 2: "\<forall>s\<in>set []. a < s \<and> s < length h" by simp
  show ?thesis using sim_push[OF assms 1 2] by (simp only: append_Nil)
qed

lemma closed_seg_cons:
  assumes "closed_seg h (Suc q) p"
    and "\<And>cs c. cchildren (h ! q) = Some cs \<Longrightarrow> c \<in> set cs \<Longrightarrow> q < c \<and> c < p"
  shows "closed_seg h q p"
proof (rule closed_segI)
  show "p \<le> length h" using assms(1) by (rule closed_seg_le)
  fix x cs k
  assume x: "q \<le> x" "x < p" and cs: "cchildren (h ! x) = Some cs" "k \<in> set cs"
  show "x < k \<and> k < p"
  proof (cases "x = q")
    case True
    then show ?thesis using assms(2) cs by simp
  next
    case False
    then have "Suc q \<le> x" using x(1) by simp
    then show ?thesis using closed_segD[OF assms(1) _ x(2) cs] by simp
  qed
qed

text \<open>Leaving a node: the top of the stack stands for the node with its last child.\<close>

lemma agree_pop:
  assumes "agree (HState h (Some a) (q # anc)) (At t (Frame n hh b # fs))"
  shows "agree (HState h (Some q) anc) (At (PNode n hh (Some (b @ [t]))) fs)"
    and "\<exists>cs. cchildren (h ! q) = Some cs \<and> list_all2 (rep h) cs (b @ [t])
            \<and> (\<forall>s\<in>set cs. q < s \<and> s < length h)"
proof -
  have a: "a < length h" "rep h a t" "closed_seg h a (length h)"
    and p: "path h a (Frame n hh b # fs) (q # anc)"
    using assms by auto
  from p obtain bs where q: "q < a" "cname (h ! q) = n" "cheight (h ! q) = hh"
    "cchildren (h ! q) = Some (bs @ [a])" "list_all2 (rep h) bs b"
    "\<forall>s\<in>set bs. q < s \<and> s < a" "closed_seg h (Suc q) a" "path h q fs anc"
    by auto
  have l: "list_all2 (rep h) (bs @ [a]) (b @ [t])"
    using q(5) a(2) by (simp add: list_all2_appendI)
  have r: "rep h q (PNode n hh (Some (b @ [t])))"
    using rep_node[OF q(4) l] q(2,3) by simp
  have inside: "\<forall>s\<in>set (bs @ [a]). q < s \<and> s < length h"
    using q(1,6) a(1) by auto
  have "closed_seg h (Suc q) (length h)"
    using q(7) a(3) by (rule closed_seg_join) (use a(1) in simp)
  then have c: "closed_seg h q (length h)"
    by (rule closed_seg_cons) (use q(4) inside in auto)
  have "q < length h" using q(1) a(1) by simp
  then show "agree (HState h (Some q) anc) (At (PNode n hh (Some (b @ [t]))) fs)"
    using r c q(8) by simp
  show "\<exists>cs. cchildren (h ! q) = Some cs \<and> list_all2 (rep h) cs (b @ [t])
            \<and> (\<forall>s\<in>set cs. q < s \<and> s < length h)"
    using q(4) l inside by blast
qed

lemma sim_comma:
  assumes "agree (HState h (Some a) (q # anc)) (At t (Frame n hh b # fs))"
  shows "\<exists>cs. cchildren ((h @ [empty_cell]) ! q) = Some cs
     \<and> agree (HState ((h @ [empty_cell])[q := ((h @ [empty_cell]) ! q)\<lparr>cchildren := Some (cs @ [length h])\<rparr>])
                  (Some (length h)) (q # anc))
           (At empty_node (Frame n hh (b @ [t]) # fs))"
proof -
  note p = agree_pop[OF assms]
  from p(2) obtain cs where cs: "cchildren (h ! q) = Some cs" "list_all2 (rep h) cs (b @ [t])"
    "\<forall>s\<in>set cs. q < s \<and> s < length h" by blast
  have "q < length h" using p(1) by simp
  then have "cchildren ((h @ [empty_cell]) ! q) = Some cs" using cs(1) by (simp add: nth_append)
  then show ?thesis using sim_push[OF p(1) cs(2,3)] unfolding pnode.sel by blast
qed

lemma sim_close:
  assumes "agree (HState h (Some a) (q # anc)) (At t (Frame n hh b # fs))"
  shows "agree (HState (h @ [empty_cell]) (Some q) anc) (At (PNode n hh (Some (b @ [t]))) fs)"
  using agree_pop(1)[OF assms] by (rule sim_alloc)

lemma agree_stack:
  assumes "agree (HState h tr anc) (At t fs)"
  shows "(fs = []) = (anc = [])"
proof -
  obtain a where "path h a fs anc" using assms by auto
  then show ?thesis by (cases fs; cases anc) simp_all
qed

lemma sim_name:
  assumes "agree (HState h (Some a) anc) (At t fs)"
  shows "agree (HState ((h @ [empty_cell])[a := ((h @ [empty_cell]) ! a)\<lparr>cname := Some tok\<rparr>]) (Some a) anc)
           (At (PNode (Some tok) (pheight t) (pchildren t)) fs)"
proof -
  have a: "a < length h" "rep h a t" using assms by auto
  have "pheight t = cheight ((h @ [empty_cell]) ! a)"
    using rep_fields[OF a(2)] a(1) by (simp add: nth_append)
  then show ?thesis
    using sim_update[OF assms, of "((h @ [empty_cell]) ! a)\<lparr>cname := Some tok\<rparr>"] by simp
qed

lemma sim_height:
  assumes "agree (HState h (Some a) anc) (At t fs)"
  shows "agree (HState ((h @ [empty_cell])[a := ((h @ [empty_cell]) ! a)\<lparr>cheight := Some x\<rparr>]) (Some a) anc)
           (At (PNode (pname t) (Some x) (pchildren t)) fs)"
proof -
  have a: "a < length h" "rep h a t" using assms by auto
  have "pname t = cname ((h @ [empty_cell]) ! a)"
    using rep_fields[OF a(2)] a(1) by (simp add: nth_append)
  then show ?thesis
    using sim_update[OF assms, of "((h @ [empty_cell]) ! a)\<lparr>cheight := Some x\<rparr>"] by simp
qed

lemma agree_Lost: "agree (HState h tr anc) Lost \<Longrightarrow> tr = None \<and> anc = []"
  by simp

lemma agree_At: "agree (HState h tr anc) (At t fs) \<Longrightarrow> \<exists>a. tr = Some a"
  by auto

lemma agree_Lost_alloc: "agree (HState (h @ [empty_cell]) None []) Lost"
  by simp

text \<open>One iteration on the store and one iteration on values keep the states in agreement.\<close>

lemma step_sim:
  assumes "agree hs zs"
  shows "(step prev tok hs = Inl TypeError \<and> zstep prev tok zs = Inl TypeError)
       \<or> (\<exists>hs' zs'. step prev tok hs = Inr hs' \<and> zstep prev tok zs = Inr zs' \<and> agree hs' zs')"
proof -
  obtain h tr anc where hs: "hs = HState h tr anc" by (cases hs)
  note ag = assms[unfolded hs]
  show ?thesis
  proof (cases zs)
    case Lost
    have t: "tr = None" "anc = []" using agree_Lost[OF ag[unfolded Lost]] by simp_all
    show ?thesis
      unfolding hs Lost t step_def zstep_def Let_def
      using agree_Lost_alloc[of h] sim_fresh[of h]
      by (simp del: agree.simps)
  next
    case (At t fs)
    obtain a where a: "tr = Some a" using agree_At[OF ag[unfolded At]] by blast
    note ag' = ag[unfolded At a]
    show ?thesis
    proof (cases fs)
      case Nil
      then have anc: "anc = []" using agree_stack[OF ag'] by simp
      note ag0 = ag'[unfolded Nil anc]
      show ?thesis
        unfolding hs At a Nil anc step_def zstep_def Let_def
        using sim_open[OF ag0] sim_fresh[of h] agree_Lost_alloc[of h] sim_alloc[OF ag0]
          sim_name[OF ag0, of tok] sim_height[OF ag0, of "parseFloat tok"]
        by (simp del: agree.simps)
    next
      case (Cons fr fs')
      obtain n hh b where fr: "fr = Frame n hh b" by (cases fr)
      have "anc \<noteq> []" using agree_stack[OF ag'] Cons by simp
      then obtain q anc' where anc: "anc = q # anc'" by (cases anc) auto
      note ag1 = ag'[unfolded Cons fr anc]
      from sim_comma[OF ag1] obtain cs where cs: "cchildren ((h @ [empty_cell]) ! q) = Some cs"
        "agree (HState ((h @ [empty_cell])[q := ((h @ [empty_cell]) ! q)\<lparr>cchildren := Some (cs @ [length h])\<rparr>])
                  (Some (length h)) (q # anc'))
           (At empty_node (Frame n hh (b @ [t]) # fs'))" by blast
      show ?thesis
        unfolding hs At a Cons fr anc step_def zstep_def Let_def
        using sim_open[OF ag1] cs sim_close[OF ag1] sim_alloc[OF ag1]
          sim_name[OF ag1, of tok] sim_height[OF ag1, of "parseFloat tok"]
        by (simp del: agree.simps)
    qed
  qed
qed

lemma run_sim:
  assumes "agree hs zs"
  shows "(run prev ts hs = Inl TypeError \<and> zrun prev ts zs = Inl TypeError)
       \<or> (\<exists>hs' zs'. run prev ts hs = Inr hs' \<and> zrun prev ts zs = Inr zs' \<and> agree hs' zs')"
  using assms
proof (induction ts arbitrary: prev hs zs)
  case Nil
  then show ?case by simp
next
  case (Cons tok ts)
  from step_sim[OF Cons.prems, of prev tok]
  show ?case
  proof
    assume "step prev tok hs = Inl TypeError \<and> zstep prev tok zs = Inl TypeError"
    then show ?thesis by simp
  next
    assume "\<exists>hs' zs'. step prev tok hs = Inr hs' \<and> zstep prev tok zs = Inr zs' \<and> agree hs' zs'"
    then obtain hs' zs' where s: "step prev tok hs = Inr hs'" "zstep prev tok zs = Inr zs'"
      "agree hs' zs'" by blast
    show ?thesis using Cons.IH[OF s(3), of "Some tok"] s(1,2) by simp
  qed
qed

lemma agree_start: "agree (HState [empty_cell] (Some 0) []) (At empty_node [])"
  using sim_fresh[of "[]"] by simp

text \<open>The loop on the store computes what the loop on values computes, and always
  has fuel enough.\<close>

lemma fromNewick_zip_eq: "fromNewick s = Some (fromNewick_zip s)"
proof -
  from run_sim[OF agree_start, of None "split s"]
  show ?thesis
  proof
    assume "run None (split s) (HState [empty_cell] (Some 0) []) = Inl TypeError
      \<and> zrun None (split s) (At empty_node []) = Inl TypeError"
    then show ?thesis by (simp add: fromNewick_def fromNewick_zip_def)
  next
    assume "\<exists>hs' zs'. run None (split s) (HState [empty_cell] (Some 0) []) = Inr hs'
      \<and> zrun None (split s) (At empty_node []) = Inr zs' \<and> agree hs' zs'"
    then obtain hs' zs' where r: "run None (split s) (HState [empty_cell] (Some 0) []) = Inr hs'"
      "zrun None (split s) (At empty_node []) = Inr zs'" "agree hs' zs'" by blast
    obtain h tr anc where hs: "hs' = HState h tr anc" by (cases hs')
    show ?thesis
    proof (cases zs')
      case Lost
      then have "tr = None" using r(3) hs by simp
      then show ?thesis using r(1,2) hs Lost by (simp add: fromNewick_def fromNewick_zip_def)
    next
      case (At t fs)
      then obtain a where a: "tr = Some a" "a < length h" "rep h a t" "closed_seg h a (length h)"
        using r(3) hs by auto
      have "fillDefaults (length h) h a = Some (zfill t)"
        using a(3,4,2) by (rule fill_rep) simp
      then show ?thesis using r(1,2) hs At a(1) by (simp add: fromNewick_def fromNewick_zip_def)
    qed
  qed
qed

lemma fromNewick_total: "fromNewick s \<noteq> None"
  by (simp add: fromNewick_zip_eq)

lemma fromNewick_toNewick:
  assumes "safe_tree big t"
  shows "fromNewick (toNewick big t) = Some (Inr (reparsed big t))"
  using fromNewick_zip_toNewick[OF assms] by (simp add: fromNewick_zip_eq)

section \<open>Facts about the clustering pipeline\<close>

lemma partitioned_singletons: "partitioned n 0 (singletons n)"
proof -
  have "map fst (singletons n) = [0..<n]"
    by (simp add: singletons_def comp_def)
  moreover have "concat (map snd (singletons n)) = [0..<n]"
    by (induction n) (simp_all add: singletons_def)
  ultimately show ?thesis by (auto simp: partitioned_def singletons_def)
qed

lemma members_of_in:
  "distinct (map fst cl) \<Longrightarrow> (a, ms) \<in> set cl \<Longrightarrow> members_of cl a = ms"
  by (simp add: members_of_def)

lemma members_of_filter:
  "a \<noteq> b \<Longrightarrow> members_of (filter (\<lambda>k. fst k \<noteq> a) cl) b = members_of cl b"
  by (induction cl) (auto simp: members_of_def)

lemma split_off:
  "distinct (map fst cl) \<Longrightarrow>
   mset (concat (map snd cl))
     = mset (members_of cl a) + mset (concat (map snd (filter (\<lambda>k. fst k \<noteq> a) cl)))"
proof (induction cl)
  case Nil
  then show ?case by (simp add: members_of_def)
next
  case (Cons k cl)
  show ?case
  proof (cases "fst k = a")
    case True
    then have "a \<notin> fst ` set cl" using Cons.prems by auto
    then have "filter (\<lambda>k. fst k \<noteq> a) cl = cl" by (auto simp: filter_id_conv)
    then show ?thesis using True by (cases k) (simp add: members_of_def)
  next
    case False
    then have "members_of (k # cl) a = members_of cl a" by (cases k) (simp add: members_of_def)
    then show ?thesis using False Cons by simp
  qed
qed

lemma filter_two:
  "filter (\<lambda>k. fst k \<noteq> a \<and> fst k \<noteq> b) cl = filter (\<lambda>k. fst k \<noteq> b) (filter (\<lambda>k. fst k \<noteq> a) cl)"
  by (induction cl) auto

lemma distinct_filter_keys: "distinct (map fst cl) \<Longrightarrow> distinct (map fst (filter P cl))"
  by (simp add: distinct_map_filter)

lemma split_off_two:
  assumes "distinct (map fst cl)" and "a \<noteq> b"
  shows "mset (concat (map snd cl))
     = mset (members_of cl a) + mset (members_of cl b)
       + mset (concat (map snd (filter (\<lambda>k. fst k \<noteq> a \<and> fst k \<noteq> b) cl)))"
proof -
  let ?cl' = "filter (\<lambda>k. fst k \<noteq> a) cl"
  have d: "distinct (map fst ?cl')" using assms(1) by (rule distinct_filter_keys)
  have "mset (concat (map snd ?cl'))
      = mset (members_of ?cl' b) + mset (concat (map snd (filter (\<lambda>k. fst k \<noteq> b) ?cl')))"
    using d by (rule split_off)
  then show ?thesis
    using split_off[OF assms(1), of a] assms(2) by (simp add: members_of_filter)
qed

lemma length_filter_key:
  "distinct (map fst cl) \<Longrightarrow> a \<in> fst ` set cl \<Longrightarrow>
   Suc (length (filter (\<lambda>k. fst k \<noteq> a) cl)) = length cl"
proof (induction cl)
  case Nil
  then show ?case by simp
next
  case (Cons k cl)
  show ?case
  proof (cases "fst k = a")
    case True
    then have "a \<notin> fst ` set cl" using Cons.prems by auto
    then have "filter (\<lambda>k. fst k \<noteq> a) cl = cl" by (auto simp: filter_id_conv)
    then show ?thesis using True by simp
  next
    case False
    then show ?thesis using Cons by auto
  qed
qed

lemma length_merge_clusters:
  assumes "distinct (map fst cl)" and "a \<in> fst ` set cl" and "b \<in> fst ` set cl" and "a \<noteq> b"
  shows "Suc (length (merge_clusters c cl (a, b))) = length cl"
proof -
  let ?cl' = "filter (\<lambda>k. fst k \<noteq> a) cl"
  have 1: "Suc (length ?cl') = length cl" using assms(1,2) by (rule length_filter_key)
  have d: "distinct (map fst ?cl')" using assms(1) by (rule distinct_filter_keys)
  have "b \<in> fst ` set ?cl'" using assms(3,4) by auto
  then have 2: "Suc (length (filter (\<lambda>k. fst k \<noteq> b) ?cl')) = length ?cl'"
    using d by (intro length_filter_key)
  show ?thesis using 1 2 by (simp add: merge_clusters_def)
qed

lemma partitioned_merge_clusters:
  assumes "partitioned n j cl" and "a \<in> fst ` set cl" and "b \<in> fst ` set cl" and "a \<noteq> b"
  shows "partitioned n (Suc j) (merge_clusters (n + j) cl (a, b))"
proof -
  have d: "distinct (map fst cl)" and bound: "\<forall>k\<in>set cl. fst k < n + j \<and> snd k \<noteq> []"
    and part: "mset (concat (map snd cl)) = mset [0..<n]"
    using assms(1) by (auto simp: partitioned_def)
  let ?rest = "filter (\<lambda>k. fst k \<noteq> a \<and> fst k \<noteq> b) cl"
  let ?new = "(n + j, members_of cl a @ members_of cl b)"
  have m: "merge_clusters (n + j) cl (a, b) = ?rest @ [?new]"
    by (simp add: merge_clusters_def)
  obtain ma where ma: "(a, ma) \<in> set cl" using assms(2) by auto
  then have "members_of cl a = ma" using d by (rule members_of_in[rotated])
  moreover have "ma \<noteq> []" using ma bound by auto
  ultimately have ne: "members_of cl a @ members_of cl b \<noteq> []" by simp
  have fresh: "n + j \<notin> fst ` set ?rest" using bound by auto
  have d': "distinct (map fst (?rest @ [?new]))"
    using distinct_filter_keys[OF d, of "\<lambda>k. fst k \<noteq> a \<and> fst k \<noteq> b"] fresh by simp
  have b': "\<forall>k\<in>set (?rest @ [?new]). fst k < n + Suc j \<and> snd k \<noteq> []"
    using bound ne by auto
  have p': "mset (concat (map snd (?rest @ [?new]))) = mset [0..<n]"
    using split_off_two[OF d assms(4)] part by (simp add: ac_simps)
  show ?thesis unfolding m partitioned_def using d' b' p' by blast
qed

lemma set_all_pairs: "set (all_pairs ids) = {(a, b). a \<in> set ids \<and> b \<in> set ids \<and> a < b}"
  by (auto simp: all_pairs_def)

lemma foldl_closer_in: "foldl (closer d) p ps \<in> set (p # ps)"
proof (induction ps arbitrary: p)
  case Nil
  then show ?case by simp
next
  case (Cons q ps)
  have c: "closer d p q = p \<or> closer d p q = q" by (simp add: closer_def)
  have "foldl (closer d) (closer d p q) ps \<in> set (closer d p q # ps)" by (rule Cons.IH)
  then show ?case using c by auto
qed

lemma closest_in:
  assumes "closest d ids = Some ab"
  shows "fst ab \<in> set ids \<and> snd ab \<in> set ids \<and> fst ab < snd ab"
proof -
  obtain p ps where ps: "all_pairs (sort ids) = p # ps" and ab: "ab = foldl (closer d) p ps"
    using assms by (auto simp: closest_def split: list.splits)
  have "ab \<in> set (all_pairs (sort ids))" unfolding ps ab by (rule foldl_closer_in)
  then show ?thesis by (simp add: set_all_pairs split_beta)
qed

lemma closest_some:
  assumes "distinct ids" and "2 \<le> length ids"
  shows "closest d ids \<noteq> None"
proof -
  obtain x y r where ids: "ids = x # y # r"
    using assms(2) by (cases ids; cases "tl ids") auto
  then have xy: "x \<noteq> y" using assms(1) by auto
  have s: "set (sort ids) = set ids" by simp
  have "x \<in> set ids" "y \<in> set ids" using ids by auto
  then have "(min x y, max x y) \<in> set (all_pairs (sort ids))"
    unfolding set_all_pairs s using xy by (auto simp: min_def max_def)
  then have "all_pairs (sort ids) \<noteq> []" by auto
  then show ?thesis by (auto simp: closest_def split: list.splits)
qed

lemma agglomerate_runs:
  assumes "partitioned n j cl" and "length cl = Suc k" and "\<forall>i. j \<le> i \<and> i < j + k \<longrightarrow> \<not> cancel i"
  shows "\<exists>ms hs. agglomerate cancel n j k cl d = Some (ms, hs, replay n j cl ms)
           \<and> length ms = k \<and> length hs = k \<and> valid_merges n j cl ms"
  using assms
proof (induction k arbitrary: j cl d)
  case 0
  then show ?case by simp
next
  case (Suc k)
  have dist: "distinct (map fst cl)" using Suc.prems(1) by (simp add: partitioned_def)
  have "closest d (map fst cl) \<noteq> None"
    using dist Suc.prems(2) by (intro closest_some) auto
  then obtain ab where ab: "closest d (map fst cl) = Some ab" by auto
  have in_ab: "fst ab \<in> fst ` set cl" "snd ab \<in> fst ` set cl" "fst ab \<noteq> snd ab"
    using closest_in[OF ab] by auto
  let ?cl' = "merge_clusters (n + j) cl ab"
  let ?d' = "lance_williams d (fst ab) (length (members_of cl (fst ab)))
               (snd ab) (length (members_of cl (snd ab))) (n + j)"
  have inv': "partitioned n (Suc j) ?cl'"
    using partitioned_merge_clusters[OF Suc.prems(1) in_ab] by simp
  have len': "length ?cl' = Suc k"
    using length_merge_clusters[OF dist in_ab, of "n + j"] Suc.prems(2) by simp
  have nc: "\<forall>i. Suc j \<le> i \<and> i < Suc j + k \<longrightarrow> \<not> cancel i" using Suc.prems(3) by auto
  obtain ms hs where r: "agglomerate cancel n (Suc j) k ?cl' ?d' = Some (ms, hs, replay n (Suc j) ?cl' ms)"
    and l: "length ms = k" "length hs = k" and v: "valid_merges n (Suc j) ?cl' ms"
    using Suc.IH[OF inv' len' nc, of ?d'] by blast
  have "\<not> cancel j" using Suc.prems(3) by auto
  then have "agglomerate cancel n j (Suc k) cl d
      = Some (ab # ms, d (fst ab) (snd ab) # hs, replay n j cl (ab # ms))"
    using ab r by simp
  moreover have "valid_merges n j cl (ab # ms)" using in_ab v by simp
  ultimately show ?case using l by (intro exI[of _ "ab # ms"] exI[of _ "d (fst ab) (snd ab) # hs"]) simp
qed

lemma agglomerate_cancelled:
  assumes "partitioned n j cl" and "length cl = Suc k" and "\<exists>i. j \<le> i \<and> i < j + k \<and> cancel i"
  shows "agglomerate cancel n j k cl d = None"
  using assms
proof (induction k arbitrary: j cl d)
  case 0
  then show ?case by auto
next
  case (Suc k)
  show ?case
  proof (cases "cancel j")
    case True
    then show ?thesis by simp
  next
    case False
    have dist: "distinct (map fst cl)" using Suc.prems(1) by (simp add: partitioned_def)
    have "closest d (map fst cl) \<noteq> None"
      using dist Suc.prems(2) by (intro closest_some) auto
    then obtain ab where ab: "closest d (map fst cl) = Some ab" by auto
    have in_ab: "fst ab \<in> fst ` set cl" "snd ab \<in> fst ` set cl" "fst ab \<noteq> snd ab"
      using closest_in[OF ab] by auto
    let ?cl' = "merge_clusters (n + j) cl ab"
    let ?d' = "lance_williams d (fst ab) (length (members_of cl (fst ab)))
                 (snd ab) (length (members_of cl (snd ab))) (n + j)"
    have inv': "partitioned n (Suc j) ?cl'"
      using partitioned_merge_clusters[OF Suc.prems(1) in_ab] by simp
    have len': "length ?cl' = Suc k"
      using length_merge_clusters[OF dist in_ab, of "n + j"] Suc.prems(2) by simp
    obtain i where i: "j \<le> i" "i < j + Suc k" "cancel i" using Suc.prems(3) by blast
    then have "i \<noteq> j" using False by auto
    then have "\<exists>i. Suc j \<le> i \<and> i < Suc j + k \<and> cancel i" using i by (intro exI[of _ i]) auto
    then have "agglomerate cancel n (Suc j) k ?cl' ?d' = None"
      using inv' len' by (intro Suc.IH)
    then show ?thesis using False ab by simp
  qed
qed

lemma engine_done:
  assumes "0 < n" and "engine cancel n d = Done ms hs ord"
  shows "length ms = n - 1 \<and> length hs = n - 1 \<and> valid_merges n 0 (singletons n) ms
     \<and> ord = concat (map snd (replay n 0 (singletons n) ms))"
proof -
  have len: "length (singletons n) = Suc (n - 1)" using assms(1) by (simp add: singletons_def)
  have nc: "\<forall>i. 0 \<le> i \<and> i < 0 + (n - 1) \<longrightarrow> \<not> cancel i"
  proof (rule ccontr)
    assume "\<not> (\<forall>i. 0 \<le> i \<and> i < 0 + (n - 1) \<longrightarrow> \<not> cancel i)"
    then have "\<exists>i. 0 \<le> i \<and> i < 0 + (n - 1) \<and> cancel i" by blast
    then have "agglomerate cancel n 0 (n - 1) (singletons n) d = None"
      using partitioned_singletons len by (intro agglomerate_cancelled)
    then show False using assms(2) by (simp add: engine_def)
  qed
  obtain ms' hs' where r: "agglomerate cancel n 0 (n - 1) (singletons n) d
        = Some (ms', hs', replay n 0 (singletons n) ms')"
    and l: "length ms' = n - 1" "length hs' = n - 1" and v: "valid_merges n 0 (singletons n) ms'"
    using agglomerate_runs[OF partitioned_singletons len nc, of d] by blast
  have "Done ms hs ord = Done ms' hs' (concat (map snd (replay n 0 (singletons n) ms')))"
    using assms(2) unfolding engine_def r by auto
  then have "ms = ms'" "hs = hs'" "ord = concat (map snd (replay n 0 (singletons n) ms'))"
    by simp_all
  then show ?thesis using l v by simp
qed

lemma engine_cancelled:
  assumes "\<exists>i<n - 1. cancel i"
  shows "engine cancel n d = Cancelled"
proof -
  have "0 < n" using assms by auto
  then have len: "length (singletons n) = Suc (n - 1)" by (simp add: singletons_def)
  have "\<exists>i. 0 \<le> i \<and> i < 0 + (n - 1) \<and> cancel i" using assms by auto
  then have "agglomerate cancel n 0 (n - 1) (singletons n) d = None"
    using partitioned_singletons len by (intro agglomerate_cancelled)
  then show ?thesis by (simp add: engine_def)
qed

lemma engine_runs:
  assumes "0 < n" and "\<forall>i<n - 1. \<not> cancel i"
  shows "\<exists>ms hs ord. engine cancel n d = Done ms hs ord"
proof -
  have len: "length (singletons n) = Suc (n - 1)" using assms(1) by (simp add: singletons_def)
  have nc: "\<forall>i. 0 \<le> i \<and> i < 0 + (n - 1) \<longrightarrow> \<not> cancel i" using assms(2) by simp
  obtain ms hs where "agglomerate cancel n 0 (n - 1) (singletons n) d
        = Some (ms, hs, replay n 0 (singletons n) ms)"
    using agglomerate_runs[OF partitioned_singletons len nc, of d] by blast
  then show ?thesis by (simp add: engine_def)
qed

lemmas eval_cluster = clusterData_def finish_def engine_def singletons_def distance_matrix_def
  flat_matrix_def taxicab_def closest_def all_pairs_def closer_def lance_williams_def
  merge_clusters_def members_of_def build_tree_def sample_label_def k_partitions_def
  partition_after_def render_def least_member_def digits_small digit_char_def

section \<open>Claims about tree-utils\<close>

text \<open>
  C9. For every node without a \<open>children\<close> field or with an empty one, \<open>toNewick\<close>
  returns exactly the name of the node, so the height of a leaf is not written. For a
  node with children the encoding is the opening bracket, the encodings of the children
  joined by commas, the closing bracket and then the text of the height,
  \<open>height.toFixed(4)\<close>, and nothing else: only the height comes after the closing
  bracket, and the name is not written, so the encoding is the same under any other
  name. Through the whole tree, overwriting the heights of the leaves and the names of
  the nodes with children (\<open>forget\<close>) leaves the encoding as it is.
\<close>

theorem toNewick_leaf_is_name:
  "((cs = None \<or> cs = Some []) \<longrightarrow> toNewick big (ClusterNode n h cs) = n)
   \<and> (\<forall>ks. cs = Some ks \<and> ks \<noteq> [] \<longrightarrow>
        toNewick big (ClusterNode n h cs)
          = ''('' @ join '','' (map (toNewick big) ks) @ '')'' @ toFixed big 4 h)
   \<and> (\<not> (cs = None \<or> cs = Some []) \<longrightarrow>
        toNewick big (ClusterNode n h cs) = toNewick big (ClusterNode n' h cs))
   \<and> toNewick big (forget t) = toNewick big t"
  by (auto simp: toNewick_forget split: option.splits)

theorem toNewick_leaf_is_name_witness:
  "toNewick unused_big (ClusterNode ''Sample 0'' (Finite 7) None) = ''Sample 0''
   \<and> toNewick unused_big (ClusterNode ''Node'' (Finite 1) (Some [])) = ''Node''
   \<and> toNewick unused_big two_leaf_tree
       = ''('' @ join '','' [''Sample 0'', ''Sample 1''] @ '')'' @ toFixed unused_big 4 (Finite (3 / 2))
   \<and> toNewick unused_big two_leaf_tree
       = toNewick unused_big (ClusterNode ''Other'' (height two_leaf_tree) (children two_leaf_tree))
   \<and> toNewick unused_big (forget two_leaf_tree) = ''(Sample 0,Sample 1)1.5000''"
  using toNewick_leaf_is_name[of None unused_big "''Sample 0''" "Finite 7" "''Other''" two_leaf_tree]
    toNewick_leaf_is_name[of "Some []" unused_big "''Node''" "Finite 1" "''Other''" two_leaf_tree]
    toNewick_leaf_is_name[of "children two_leaf_tree" unused_big "''Root''" "height two_leaf_tree"
      "''Other''" two_leaf_tree]
  by (simp add: two_leaf_tree_def eval_fixed)

text \<open>
  C10. For every node, \<open>treeToJSON\<close> copies the name and the height as they are, and
  its result has a \<open>children\<close> property exactly when the node has a \<open>children\<close> field
  that is not empty; the property then holds the images of the children. An empty
  array of children is dropped.
\<close>

theorem treeToJSON_copies:
  "jname (treeToJSON t) = name t
   \<and> jheight (treeToJSON t) = height t
   \<and> (jchildren (treeToJSON t) \<noteq> None) = (\<exists>ks. children t = Some ks \<and> ks \<noteq> [])
   \<and> jchildren (treeToJSON t)
       = (case children t of
            None \<Rightarrow> None
          | Some ks \<Rightarrow> if ks = [] then None else Some (map treeToJSON ks))"
  by (cases t) (auto split: option.splits)

theorem treeToJSON_copies_witness:
  "jname (treeToJSON (ClusterNode ''Node'' (Finite (123456789 / 100000000)) (Some []))) = ''Node''
   \<and> jheight (treeToJSON (ClusterNode ''Node'' (Finite (123456789 / 100000000)) (Some [])))
       = Finite (123456789 / 100000000)
   \<and> jchildren (treeToJSON (ClusterNode ''Node'' (Finite (123456789 / 100000000)) (Some [])))
       = None"
  using treeToJSON_copies[of "ClusterNode ''Node'' (Finite (123456789 / 100000000)) (Some [])"]
  by simp

text \<open>
  C7, as the specification states it, fails: the encoding of a tree with children does
  not end in \<open>;\<close> (the tree of the tests gives \<open>(Sample 0,Sample 1)1.5000\<close>), and a
  height that is not finite is not printed with four decimals.
\<close>

theorem toNewick_semicolon_counterexample:
  "toNewick unused_big two_leaf_tree = ''(Sample 0,Sample 1)1.5000''
   \<and> last (toNewick unused_big two_leaf_tree) \<noteq> CHR '';''
   \<and> toNewick unused_big
        (ClusterNode ''Root'' NaN
           (Some [ClusterNode ''A'' (Finite 0) None, ClusterNode ''B'' (Finite 0) None]))
      = ''(A,B)NaN''
   \<and> toNewick unused_big
        (ClusterNode ''Root'' PosInf
           (Some [ClusterNode ''A'' (Finite 0) None, ClusterNode ''B'' (Finite 0) None]))
      = ''(A,B)Infinity''"
  by (simp add: two_leaf_tree_def eval_fixed)

text \<open>
  C7, amended. For every node with a non-empty array of children, \<open>toNewick\<close> returns
  an opening bracket, the encodings of the children joined by commas, a closing bracket
  and \<open>height.toFixed(4)\<close>, and nothing after it. For a finite height of magnitude
  below \<open>10^21\<close> that text has exactly four decimals (the height rounded at the fourth
  decimal, upwards on a tie), so the encoding does not end in \<open>;\<close>. The heights
  \<open>NaN\<close>, \<open>Infinity\<close> and \<open>-Infinity\<close> are written as \<open>NaN\<close>, \<open>Infinity\<close> and
  \<open>-Infinity\<close>, without decimals, and the encoding does not end in \<open>;\<close> either.
\<close>

theorem toNewick_brackets:
  assumes "ks \<noteq> []"
  shows "toNewick big (ClusterNode n h (Some ks))
      = ''('' @ join '','' (map (toNewick big) ks) @ '')'' @ toFixed big 4 h
    \<and> (\<forall>x. h = Finite x \<and> \<bar>x\<bar> < 10 ^ 21 \<longrightarrow>
          four_decimals x (toFixed big 4 h)
          \<and> last (toNewick big (ClusterNode n h (Some ks))) \<noteq> CHR '';'')
    \<and> (h = NaN \<longrightarrow> toFixed big 4 h = ''NaN'')
    \<and> (h = PosInf \<longrightarrow> toFixed big 4 h = ''Infinity'')
    \<and> (h = NegInf \<longrightarrow> toFixed big 4 h = ''-Infinity'')
    \<and> ((\<forall>x. h \<noteq> Finite x) \<longrightarrow>
          last (toNewick big (ClusterNode n h (Some ks))) \<noteq> CHR '';'')"
proof -
  have e: "toNewick big (ClusterNode n h (Some ks))
      = ''('' @ join '','' (map (toNewick big) ks) @ '')'' @ toFixed big 4 h"
    using assms by simp
  have "four_decimals x (toFixed big 4 h)
      \<and> last (toNewick big (ClusterNode n h (Some ks))) \<noteq> CHR '';''"
    if h: "h = Finite x" and x: "\<bar>x\<bar> < 10 ^ 21" for x
  proof -
    have l: "toFixed big 4 h \<noteq> [] \<and> last (toFixed big 4 h) \<noteq> CHR '';''"
      unfolding h using x by (rule toFixed4_last)
    have "last (toNewick big (ClusterNode n h (Some ks))) = last (toFixed big 4 h)"
      unfolding e using l by simp
    then show ?thesis using l toFixed4_four_decimals[OF x, of big] h by simp
  qed
  then have f: "\<forall>x. h = Finite x \<and> \<bar>x\<bar> < 10 ^ 21 \<longrightarrow>
          four_decimals x (toFixed big 4 h)
          \<and> last (toNewick big (ClusterNode n h (Some ks))) \<noteq> CHR '';''"
    by blast
  have i: "(h = NaN \<longrightarrow> toFixed big 4 h = ''NaN'')
      \<and> (h = PosInf \<longrightarrow> toFixed big 4 h = ''Infinity'')
      \<and> (h = NegInf \<longrightarrow> toFixed big 4 h = ''-Infinity'')"
    by (simp add: toFixed_def)
  have "last (toNewick big (ClusterNode n h (Some ks))) \<noteq> CHR '';''"
    if "\<forall>x. h \<noteq> Finite x"
    unfolding e using that by (cases h) (simp_all add: toFixed_def)
  then show ?thesis using e f i by blast
qed

theorem toNewick_brackets_witness:
  "toNewick unused_big two_leaf_tree = ''(Sample 0,Sample 1)'' @ toFixed unused_big 4 (Finite (3 / 2))
   \<and> four_decimals (3 / 2) (toFixed unused_big 4 (Finite (3 / 2)))
   \<and> toFixed unused_big 4 (Finite (3 / 2)) = ''1.5000''
   \<and> last (toNewick unused_big two_leaf_tree) \<noteq> CHR '';''
   \<and> toNewick unused_big (ClusterNode ''Root'' NegInf (Some [ClusterNode ''A'' (Finite 0) None]))
       = ''(A)-Infinity''
   \<and> toFixed unused_big 4 PosInf = ''Infinity''
   \<and> toFixed unused_big 4 NaN = ''NaN''"
  using toNewick_brackets[of "[ClusterNode ''Sample 0'' (Finite 0) None,
      ClusterNode ''Sample 1'' (Finite 0) None]" unused_big "''Root''" "Finite (3 / 2)"]
    toNewick_brackets[of "[ClusterNode ''A'' (Finite 0) None]" unused_big "''Root''" NegInf]
    toNewick_brackets[of "[ClusterNode ''A'' (Finite 0) None]" unused_big "''Root''" PosInf]
    toNewick_brackets[of "[ClusterNode ''A'' (Finite 0) None]" unused_big "''Root''" NaN]
  by (simp add: two_leaf_tree_def eval_fixed)

text \<open>
  C8. The claim gives a node whose name is unset in the input the empty string. On the
  input \<open>(A,B);\<close> the root has no name, and \<open>fromNewick\<close> names it \<open>;\<close>: the tokens
  are \<open>''''\<close>, \<open>(\<close>, \<open>A\<close>, \<open>,\<close>, \<open>B\<close>, \<open>)\<close>, \<open>''''\<close>, \<open>;\<close>, \<open>''''\<close>; the token \<open>;\<close>
  goes to the default case of the \<open>switch\<close>, where the token before it is the empty
  text, and is assigned to \<open>tree.name\<close>.
\<close>

theorem fromNewick_semicolon_name:
  "fromNewick ''(A,B);'' =
     Some (Inr (ClusterNode '';'' (Finite 0)
                  (Some [ClusterNode ''A'' (Finite 0) None, ClusterNode ''B'' (Finite 0) None])))"
  by (simp add: fromNewick_zip_eq eval_split eval_parse)

text \<open>
  C2, as the specification states it, fails. The height 1.5 of the root of the tree of
  the tests is in the encoding (\<open>1.5000\<close>), and the parsed root has height 0 and the
  name \<open>1.5000\<close>: \<open>toNewick\<close> writes the height where \<open>fromNewick\<close> reads a name. And
  the name \<open>a,b\<close> of a leaf comes back as \<open>b\<close>.
\<close>

theorem roundtrip_counterexample:
  "fromNewick (toNewick unused_big two_leaf_tree) =
     Some (Inr (ClusterNode ''1.5000'' (Finite 0)
                  (Some [ClusterNode ''Sample 0'' (Finite 0) None,
                         ClusterNode ''Sample 1'' (Finite 0) None])))
   \<and> height two_leaf_tree = Finite (3 / 2)
   \<and> fromNewick (toNewick unused_big (ClusterNode ''a,b'' (Finite 0) None))
      = Some (Inr (ClusterNode ''b'' (Finite 0) None))"
  by (simp add: fromNewick_zip_eq two_leaf_tree_def eval_fixed eval_split eval_parse)

text \<open>
  C2, amended. For every tree whose leaf names hold none of the characters
  \<open>; ( ) , :\<close> and neither start nor end with white space, \<open>fromNewick (toNewick tree)\<close>
  returns a tree of the same shape with the same leaf names (a node with an empty array
  of children comes back as a leaf without children); every height of the result is 0,
  and the name of every node with children is the text \<open>toNewick\<close> printed for its
  height. (The first hypothesis says of the exponential notation, the parameter
  \<open>big\<close>, that it prints no delimiter and no white space at either end.)
\<close>

theorem roundtrip_leaf_names:
  assumes "\<forall>x. 10 ^ 21 \<le> x \<longrightarrow> safe_text (big x)"
    and "list_all safe_text (leaf_names t)"
  shows "fromNewick (toNewick big t) = Some (Inr (reparsed big t))
    \<and> leaf_names (reparsed big t) = leaf_names t"
proof -
  have "safe_tree big t" using assms by (rule safe_tree_names)
  then show ?thesis by (simp add: fromNewick_toNewick leaf_names_reparsed)
qed

theorem roundtrip_leaf_names_witness:
  "list_all safe_text (leaf_names two_leaf_tree)
   \<and> fromNewick (toNewick unused_big two_leaf_tree) =
       Some (Inr (ClusterNode ''1.5000'' (Finite 0)
                    (Some [ClusterNode ''Sample 0'' (Finite 0) None,
                           ClusterNode ''Sample 1'' (Finite 0) None])))
   \<and> leaf_names two_leaf_tree = [''Sample 0'', ''Sample 1'']"
proof -
  have b: "\<forall>x. 10 ^ 21 \<le> x \<longrightarrow> safe_text (unused_big x)"
    by (simp add: unused_big_def safe_text_def)
  have n: "list_all safe_text (leaf_names two_leaf_tree)"
    by (simp add: two_leaf_tree_def safe_text_def is_delim_def is_space_def)
  show ?thesis
    using n roundtrip_leaf_names[OF b n]
    by (simp add: two_leaf_tree_def eval_fixed)
qed

section \<open>Claims about the clustering call\<close>

text \<open>
  C3. Whenever the engine returns the cancelled status, the call fails with the error
  \<open>Aborted\<close>, which carries no tree, merges, heights or order; and whenever one of the
  polls of the run (one for each of the \<open>n - 1\<close> iterations) reports cancellation, the
  engine returns the cancelled status, so the call fails in that way. (Settled on the
  model of the specification's engine and cancellation channel.)
\<close>

theorem cancellation_aborts:
  "finish inner labels n d Cancelled = Inl Aborted
   \<and> ((\<exists>i<length vectors - 1. cancel i) \<longrightarrow>
        engine cancel (length vectors) (distance_matrix metric vectors) = Cancelled
        \<and> clusterData metric inner labels cancel vectors = Inl Aborted)"
  by (simp add: finish_def clusterData_def engine_cancelled)

theorem cancellation_aborts_witness:
  "clusterData taxicab (\<lambda>j. ''Root'') None (\<lambda>i. True) [[1, 2], [3, 4]] = Inl Aborted
   \<and> engine (\<lambda>i. True) 2 (distance_matrix taxicab [[1, 2], [3, 4]]) = Cancelled"
  using cancellation_aborts[of "\<lambda>j. ''Root''" None 2 "distance_matrix taxicab [[1, 2], [3, 4]]"
      "[[1, 2], [3, 4]]" "\<lambda>i. True" taxicab]
  by (simp add: numeral_2_eq_2)

text \<open>
  C6. For a single input vector the engine returns no merges, no heights and the order
  \<open>[0]\<close>, and the result of the call has the tree that is the leaf \<open>Sample 0\<close> of
  height 0 without children, the order \<open>[0]\<close> and the table \<open>[[[0]], []]\<close>. (Settled
  on the model of the specification's pipeline; no labels are given.)
\<close>

theorem single_sample:
  "engine cancel 1 (distance_matrix metric [v]) = Done [] [] [0]
   \<and> clusterData metric inner None cancel [v] =
       Inr \<lparr>tree = Some (ClusterNode ''Sample 0'' (Finite 0) None),
            order = [0],
            distances = [0],
            clustersGivenK = [[[0]], []]\<rparr>"
  by (simp add: eval_cluster)

end
